theory Spec2Isabelle
  imports Main "HOL-Library.Word" "HOL-Library.Signed_Division"
begin

unbundle bit_operations_syntax

section \<open>The block-oriented Base58 codec of src/monero/base58.ts\<close>

text \<open>
  Data as the source has it.
  \<^item> A \<^verbatim>\<open>Uint8Array\<close> is a list of 8-bit words.
  \<^item> A \<^verbatim>\<open>bigint\<close> is an \<^typ>\<open>int\<close>. The shifts \<^verbatim>\<open><<\<close> and \<^verbatim>\<open>>>\<close> are
    \<^const>\<open>push_bit\<close> and \<^const>\<open>drop_bit\<close>, \<^verbatim>\<open>&\<close> is \<open>AND\<close>, and the
    truncating \<^verbatim>\<open>/\<close> and \<^verbatim>\<open>%\<close> are \<open>sdiv\<close> and \<open>smod\<close>. The only divisor
    of the source is the constant 58, so the division never raises.
  \<^item> A JavaScript string is a list of characters, one for each code unit; its
    \<^verbatim>\<open>length\<close> and \<^verbatim>\<open>slice\<close> count units. The alphabet has 58 one-unit
    characters. The loop of \<^verbatim>\<open>decodeBlock\<close> visits code points; a code point of two
    units has no unit in the alphabet, so reading unit by unit fails in the same group
    with the same kind of error.
  \<^item> A \<^verbatim>\<open>throw\<close> is the left injection of a sum; the payload is what the
    message of the source names.
\<close>

type_synonym byte = "8 word"

datatype error =
    InvalidDecodedBlockSize nat
  | InvalidEncodedBlockSize nat
  | InvalidBase58Character char
  | RangeError
  | InvalidDecodedAddressLength nat

definition ALPHABET :: string where
  "ALPHABET = ''123456789ABCDEFGHJKLMNPQRSTUVWXYZabcdefghijkmnopqrstuvwxyz''"

definition BASE :: int where
  "BASE = 58"

definition FULL_BLOCK_SIZE :: nat where
  "FULL_BLOCK_SIZE = 8"

definition FULL_ENCODED_BLOCK_SIZE :: nat where
  "FULL_ENCODED_BLOCK_SIZE = 11"

subsection \<open>Built-ins of the language that the source calls\<close>

text \<open>
  \<^verbatim>\<open>a.subarray(b, e)\<close>, \<^verbatim>\<open>a.slice(b, e)\<close> and \<^verbatim>\<open>s.slice(b, e)\<close> with
  non-negative bounds: both bounds are clamped to the length, and the result is empty
  when \<open>e \<le> b\<close>.
\<close>

definition slice_list :: "'a list \<Rightarrow> nat \<Rightarrow> nat \<Rightarrow> 'a list" where
  "slice_list xs b e = take (e - b) (drop b xs)"

text \<open>
  \<^verbatim>\<open>s.indexOf(c)\<close> for a one-character \<open>c\<close>: the first position of \<open>c\<close>, or
  \<open>-1\<close>.
\<close>

fun indexOf :: "'a list \<Rightarrow> 'a \<Rightarrow> int" where
  "indexOf [] c = - 1"
| "indexOf (x # xs) c =
     (if x = c then 0
      else (let r = indexOf xs c in if r < 0 then - 1 else r + 1))"

text \<open>
  \<^verbatim>\<open>ALPHABET[rem]\<close>: the one-character string at an index in range, and
  \<^verbatim>\<open>undefined\<close> otherwise, which \<^verbatim>\<open>join("")\<close> renders as the empty string.
\<close>

definition char_at :: "string \<Rightarrow> int \<Rightarrow> string" where
  "char_at s i = (if 0 \<le> i \<and> i < int (length s) then [s ! nat i] else [])"

text \<open>
  \<^verbatim>\<open>out.set(src, offset)\<close> on a typed array: a \<^verbatim>\<open>RangeError\<close> when the source
  does not fit behind the offset, otherwise the source overwrites that part.
\<close>

definition typed_set :: "byte list \<Rightarrow> byte list \<Rightarrow> nat \<Rightarrow> error + byte list" where
  "typed_set out src offset =
     (if offset + length src > length out then Inl RangeError
      else Inr (take offset out @ src @ drop (offset + length src) out))"

subsection \<open>Block size tables\<close>

definition getEncodedBlockSize :: "nat \<Rightarrow> error + nat" where
  "getEncodedBlockSize decodedSize =
     (if decodedSize = 1 then Inr 2
      else if decodedSize = 2 then Inr 3
      else if decodedSize = 3 then Inr 5
      else if decodedSize = 4 then Inr 6
      else if decodedSize = 5 then Inr 7
      else if decodedSize = 6 then Inr 9
      else if decodedSize = 7 then Inr 10
      else if decodedSize = 8 then Inr 11
      else Inl (InvalidDecodedBlockSize decodedSize))"

definition getDecodedBlockSize :: "nat \<Rightarrow> error + nat" where
  "getDecodedBlockSize encodedSize =
     (if encodedSize = 2 then Inr 1
      else if encodedSize = 3 then Inr 2
      else if encodedSize = 5 then Inr 3
      else if encodedSize = 6 then Inr 4
      else if encodedSize = 7 then Inr 5
      else if encodedSize = 9 then Inr 6
      else if encodedSize = 10 then Inr 7
      else if encodedSize = 11 then Inr 8
      else Inl (InvalidEncodedBlockSize encodedSize))"

subsection \<open>Bytes and big integers\<close>

text \<open>
  \<^verbatim>\<open>bigIntToFixedBytes\<close> is defined in the source but called nowhere; it has no
  counterpart here.
\<close>

text \<open>The loop of \<^verbatim>\<open>bytesToBigInt\<close>, big-endian.\<close>

fun bytesToBigInt_loop :: "byte list \<Rightarrow> int \<Rightarrow> int" where
  "bytesToBigInt_loop [] n = n"
| "bytesToBigInt_loop (b # bytes) n = bytesToBigInt_loop bytes (push_bit 8 n + uint b)"

definition bytesToBigInt :: "byte list \<Rightarrow> int" where
  "bytesToBigInt bytes = bytesToBigInt_loop bytes 0"

text \<open>
  The \<^verbatim>\<open>while (n > 0n)\<close> loop of \<^verbatim>\<open>bigIntToBytesMinimal\<close>; it pushes the low byte
  and shifts.
\<close>

function bigIntToBytesMinimal_loop :: "int \<Rightarrow> byte list \<Rightarrow> byte list" where
  "bigIntToBytesMinimal_loop n bytes =
     (if n > 0
      then bigIntToBytesMinimal_loop (drop_bit 8 n) (bytes @ [word_of_int (n AND 255)])
      else bytes)"
  by pat_completeness auto
termination
proof (relation "measure (\<lambda>(n, bytes). nat n)")
  show "wf (measure (\<lambda>(n, bytes). nat n))"
    by simp
next
  fix n :: int and bytes :: "byte list"
  assume pos: "0 < n"
  have "n div 256 < n"
    using pos by (simp add: int_div_less_self)
  then show "((drop_bit 8 n, bytes @ [word_of_int (n AND 255)]), (n, bytes))
               \<in> measure (\<lambda>(n, bytes). nat n)"
    using pos by (simp add: drop_bit_eq_div)
qed

declare bigIntToBytesMinimal_loop.simps [simp del]

definition bigIntToBytesMinimal :: "int \<Rightarrow> byte list" where
  "bigIntToBytesMinimal n =
     (if n = 0 then [0] else rev (bigIntToBytesMinimal_loop n []))"

subsection \<open>One block\<close>

text \<open>
  The \<^verbatim>\<open>for\<close> loop of \<^verbatim>\<open>encodeBlock\<close>; the first argument counts the iterations
  that remain.
\<close>

fun encodeBlock_loop :: "nat \<Rightarrow> int \<Rightarrow> string list \<Rightarrow> string list" where
  "encodeBlock_loop 0 num chars = chars"
| "encodeBlock_loop (Suc k) num chars =
     encodeBlock_loop k (num sdiv BASE) (chars @ [char_at ALPHABET (num smod BASE)])"

definition encodeBlock :: "byte list \<Rightarrow> nat \<Rightarrow> string" where
  "encodeBlock data encodedSize =
     concat (rev (encodeBlock_loop encodedSize (bytesToBigInt data) []))"

text \<open>The \<^verbatim>\<open>for ... of\<close> loop of \<^verbatim>\<open>decodeBlock\<close>, which throws at the first bad character.\<close>

fun decodeBlock_loop :: "string \<Rightarrow> int \<Rightarrow> error + int" where
  "decodeBlock_loop [] num = Inr num"
| "decodeBlock_loop (c # cs) num =
     (let digit = indexOf ALPHABET c
      in if digit < 0 then Inl (InvalidBase58Character c)
         else decodeBlock_loop cs (num * BASE + digit))"

definition decodeBlock :: "string \<Rightarrow> nat \<Rightarrow> error + byte list" where
  "decodeBlock data decodedSize =
     (case decodeBlock_loop data 0 of
        Inl e \<Rightarrow> Inl e
      | Inr num \<Rightarrow>
          (let full = bigIntToBytesMinimal num;
               out = replicate decodedSize (0 :: byte);
               start = (if length full > decodedSize then length full - decodedSize else 0);
               len = min (length full) decodedSize
           in typed_set out (slice_list full start (start + len)) (decodedSize - len)))"

subsection \<open>The codec\<close>

function cnBase58Encode_loop :: "byte list \<Rightarrow> nat \<Rightarrow> nat \<Rightarrow> string list \<Rightarrow> string list" where
  "cnBase58Encode_loop data i fullBlockCount parts =
     (if i < fullBlockCount
      then (let start = i * FULL_BLOCK_SIZE;
                block = slice_list data start (start + FULL_BLOCK_SIZE)
            in cnBase58Encode_loop data (i + 1) fullBlockCount
                 (parts @ [encodeBlock block FULL_ENCODED_BLOCK_SIZE]))
      else parts)"
  by pat_completeness auto
termination
  by (relation "measure (\<lambda>(data, i, fullBlockCount, parts). fullBlockCount - i)") auto

declare cnBase58Encode_loop.simps [simp del]

definition cnBase58Encode :: "byte list \<Rightarrow> error + string" where
  "cnBase58Encode data =
     (let fullBlockCount = length data div FULL_BLOCK_SIZE;
          lastBlockSize = length data mod FULL_BLOCK_SIZE;
          parts = cnBase58Encode_loop data 0 fullBlockCount []
      in if lastBlockSize > 0
         then (let block = drop (fullBlockCount * FULL_BLOCK_SIZE) data
               in case getEncodedBlockSize lastBlockSize of
                    Inl e \<Rightarrow> Inl e
                  | Inr encodedSize \<Rightarrow> Inr (concat (parts @ [encodeBlock block encodedSize])))
         else Inr (concat parts))"

function cnBase58Decode_loop :: "string \<Rightarrow> nat \<Rightarrow> nat \<Rightarrow> byte list \<Rightarrow> error + byte list" where
  "cnBase58Decode_loop encoded i fullBlockCount bytes =
     (if i < fullBlockCount
      then (let start = i * FULL_ENCODED_BLOCK_SIZE;
                blockStr = slice_list encoded start (start + FULL_ENCODED_BLOCK_SIZE)
            in case decodeBlock blockStr FULL_BLOCK_SIZE of
                 Inl e \<Rightarrow> Inl e
               | Inr decodedBlock \<Rightarrow>
                   cnBase58Decode_loop encoded (i + 1) fullBlockCount (bytes @ decodedBlock))
      else Inr bytes)"
  by pat_completeness auto
termination
  by (relation "measure (\<lambda>(encoded, i, fullBlockCount, bytes). fullBlockCount - i)") auto

declare cnBase58Decode_loop.simps [simp del]

definition cnBase58Decode :: "string \<Rightarrow> error + byte list" where
  "cnBase58Decode encoded =
     (let fullBlockCount = length encoded div FULL_ENCODED_BLOCK_SIZE;
          lastBlockSize = length encoded mod FULL_ENCODED_BLOCK_SIZE
      in case cnBase58Decode_loop encoded 0 fullBlockCount [] of
           Inl e \<Rightarrow> Inl e
         | Inr bytes \<Rightarrow>
             (if lastBlockSize > 0
              then (let blockStr = drop (fullBlockCount * FULL_ENCODED_BLOCK_SIZE) encoded
                    in case getDecodedBlockSize lastBlockSize of
                         Inl e \<Rightarrow> Inl e
                       | Inr decodedSize \<Rightarrow>
                           (case decodeBlock blockStr decodedSize of
                              Inl e \<Rightarrow> Inl e
                            | Inr decodedBlock \<Rightarrow> Inr (bytes @ decodedBlock)))
              else Inr bytes))"

section \<open>The address decoder of src/monero/decodeAddress.ts\<close>

record DecodedMoneroAddress =
  prefix :: byte
  publicSpendKeyHex :: string
  publicViewKeyHex :: string
  checksumHex :: string

text \<open>
  \<^verbatim>\<open>Buffer.from(b).toString("hex")\<close>: two lowercase hexadecimal digits for each byte,
  the high nibble first.
\<close>

definition hex_digit :: "nat \<Rightarrow> char" where
  "hex_digit n = ''0123456789abcdef'' ! n"

definition bytesToHex :: "byte list \<Rightarrow> string" where
  "bytesToHex b = concat (map (\<lambda>w. [hex_digit (unat w div 16), hex_digit (unat w mod 16)]) b)"

definition decodeStandardAddress :: "string \<Rightarrow> error + DecodedMoneroAddress" where
  "decodeStandardAddress address =
     (case cnBase58Decode address of
        Inl e \<Rightarrow> Inl e
      | Inr decoded \<Rightarrow>
          (if length decoded \<noteq> 69 then Inl (InvalidDecodedAddressLength (length decoded))
           else (let publicSpend = slice_list decoded 1 33;
                     publicView = slice_list decoded 33 65;
                     checksum = slice_list decoded 65 69
                 in Inr \<lparr> prefix = decoded ! 0,
                          publicSpendKeyHex = bytesToHex publicSpend,
                          publicViewKeyHex = bytesToHex publicView,
                          checksumHex = bytesToHex checksum \<rparr>)))"

section \<open>Groups whose value fits the decoded block\<close>

text \<open>
  \<^verbatim>\<open>decodeBlock\<close> keeps the last \<open>decodedSize\<close> bytes of the value it read, so a
  group whose base-58 value needs more bytes loses its high bytes. \<open>group_fits\<close> says
  that the value of a group, as the loop of \<^verbatim>\<open>decodeBlock\<close> computes it, is below
  \<open>256 ^ decodedSize\<close>; \<open>no_overflow\<close> says so for every group that
  \<^verbatim>\<open>cnBase58Decode\<close> cuts a string into.
\<close>

definition group_fits :: "string \<Rightarrow> nat \<Rightarrow> bool" where
  "group_fits g decodedSize =
     (case decodeBlock_loop g 0 of Inl e \<Rightarrow> False | Inr num \<Rightarrow> num < 256 ^ decodedSize)"

definition no_overflow :: "string \<Rightarrow> bool" where
  "no_overflow encoded =
     (let fullBlockCount = length encoded div FULL_ENCODED_BLOCK_SIZE;
          lastBlockSize = length encoded mod FULL_ENCODED_BLOCK_SIZE
      in list_all (\<lambda>i. group_fits
                         (slice_list encoded (i * FULL_ENCODED_BLOCK_SIZE)
                            (i * FULL_ENCODED_BLOCK_SIZE + FULL_ENCODED_BLOCK_SIZE))
                         FULL_BLOCK_SIZE)
           [0..<fullBlockCount]
         \<and> (case getDecodedBlockSize lastBlockSize of
               Inl e \<Rightarrow> True
             | Inr decodedSize \<Rightarrow>
                 group_fits (drop (fullBlockCount * FULL_ENCODED_BLOCK_SIZE) encoded) decodedSize))"

section \<open>Big-endian bytes and their value\<close>

text \<open>
  The value of a byte list is what \<^verbatim>\<open>bytesToBigInt\<close> returns: non-negative, below
  \<open>256 ^ length\<close>, and one-to-one on lists of one length.
\<close>

lemma bytesToBigInt_loop_acc:
  "bytesToBigInt_loop bs n = n * 256 ^ length bs + bytesToBigInt_loop bs 0"
proof (induction bs arbitrary: n)
  case Nil
  show ?case by simp
next
  case (Cons b bs)
  have "bytesToBigInt_loop (b # bs) n = bytesToBigInt_loop bs (n * 256 + uint b)"
    by (simp add: push_bit_eq_mult)
  also have "\<dots> = (n * 256 + uint b) * 256 ^ length bs + bytesToBigInt_loop bs 0"
    by (rule Cons.IH)
  also have "bytesToBigInt_loop bs (uint b) = uint b * 256 ^ length bs + bytesToBigInt_loop bs 0"
    by (rule Cons.IH)
  then have "(n * 256 + uint b) * 256 ^ length bs + bytesToBigInt_loop bs 0
      = n * 256 ^ length (b # bs) + bytesToBigInt_loop (b # bs) 0"
    by (simp add: algebra_simps push_bit_eq_mult)
  finally show ?case .
qed

lemma bytesToBigInt_Nil: "bytesToBigInt [] = 0"
  by (simp add: bytesToBigInt_def)

lemma bytesToBigInt_Cons:
  "bytesToBigInt (b # bs) = uint b * 256 ^ length bs + bytesToBigInt bs"
  using bytesToBigInt_loop_acc [of bs "uint b"]
  by (simp add: bytesToBigInt_def push_bit_eq_mult)

lemma bytesToBigInt_append:
  "bytesToBigInt (xs @ ys) = bytesToBigInt xs * 256 ^ length ys + bytesToBigInt ys"
  by (induction xs) (simp_all add: bytesToBigInt_Nil bytesToBigInt_Cons algebra_simps power_add)

lemma bytesToBigInt_nonneg: "0 \<le> bytesToBigInt bs"
  by (induction bs) (simp_all add: bytesToBigInt_Nil bytesToBigInt_Cons)

lemma uint_byte_lt: "uint (b :: byte) < 256"
  using uint_bounded [of b] by simp

lemma bytesToBigInt_bound: "bytesToBigInt bs < 256 ^ length bs"
proof (induction bs)
  case Nil
  show ?case by (simp add: bytesToBigInt_Nil)
next
  case (Cons b bs)
  define p :: int where "p = 256 ^ length bs"
  have "uint b * p \<le> 255 * p"
    using uint_byte_lt [of b] by (intro mult_right_mono) (simp_all add: p_def)
  moreover have "bytesToBigInt bs < p"
    using Cons.IH by (simp add: p_def)
  ultimately have "uint b * p + bytesToBigInt bs < 256 * p"
    by linarith
  then show ?case
    by (simp add: bytesToBigInt_Cons p_def)
qed

lemma bytesToBigInt_replicate_zero: "bytesToBigInt (replicate k 0) = 0"
  by (induction k) (simp_all add: bytesToBigInt_Nil bytesToBigInt_Cons)

lemma bytesToBigInt_inject:
  "length xs = length ys \<Longrightarrow> bytesToBigInt xs = bytesToBigInt ys \<Longrightarrow> xs = ys"
proof (induction xs ys rule: list_induct2)
  case Nil
  show ?case by simp
next
  case (Cons x xs y ys)
  define p :: int where "p = 256 ^ length xs"
  have p_pos: "0 < p"
    by (simp add: p_def)
  have eq: "uint x * p + bytesToBigInt xs = uint y * p + bytesToBigInt ys"
    using Cons.prems Cons.hyps by (simp add: bytesToBigInt_Cons p_def)
  have bx: "bytesToBigInt xs mod p = bytesToBigInt xs"
    using bytesToBigInt_nonneg [of xs] bytesToBigInt_bound [of xs] by (simp add: p_def)
  have bys: "bytesToBigInt ys mod p = bytesToBigInt ys"
    using bytesToBigInt_nonneg [of ys] bytesToBigInt_bound [of ys] Cons.hyps by (simp add: p_def)
  have "(uint x * p + bytesToBigInt xs) mod p = (uint y * p + bytesToBigInt ys) mod p"
    by (simp only: eq)
  then have tl_eq: "bytesToBigInt xs = bytesToBigInt ys"
    using bx bys by simp
  then have "uint x * p = uint y * p"
    using eq by simp
  then have "uint x = uint y"
    using p_pos by simp
  with Cons.IH tl_eq show ?case
    by (simp add: word_uint_eq_iff)
qed

lemma bytesToBigInt_drop:
  "bytesToBigInt (drop m xs) = bytesToBigInt xs mod 256 ^ (length xs - m)"
proof -
  have "bytesToBigInt xs = bytesToBigInt (take m xs @ drop m xs)"
    by simp
  also have "\<dots> = bytesToBigInt (take m xs) * 256 ^ (length xs - m) + bytesToBigInt (drop m xs)"
    by (simp only: bytesToBigInt_append length_drop)
  finally have "bytesToBigInt xs mod 256 ^ (length xs - m) = bytesToBigInt (drop m xs) mod 256 ^ (length xs - m)"
    by simp
  moreover have "bytesToBigInt (drop m xs) < 256 ^ (length xs - m)"
    using bytesToBigInt_bound [of "drop m xs"] by simp
  ultimately show ?thesis
    using bytesToBigInt_nonneg [of "drop m xs"] by simp
qed

lemma low_byte: "(n :: int) AND 255 = n mod 256"
proof -
  have "n AND mask 8 = n mod 2 ^ 8"
    by (simp only: take_bit_eq_mask [symmetric] take_bit_eq_mod)
  then show ?thesis by (simp add: mask_eq_exp_minus_1)
qed

lemma uint_low_byte: "uint (word_of_int (n AND 255) :: byte) = n mod 256"
  by (simp add: low_byte uint_word_of_int)

lemma minimal_loop_step:
  "0 < n \<Longrightarrow> bigIntToBytesMinimal_loop n acc
     = bigIntToBytesMinimal_loop (n div 256) (acc @ [word_of_int (n AND 255)])"
  by (subst bigIntToBytesMinimal_loop.simps) (simp add: drop_bit_eq_div)

lemma minimal_loop_stop:
  "\<not> 0 < n \<Longrightarrow> bigIntToBytesMinimal_loop n acc = acc"
  by (subst bigIntToBytesMinimal_loop.simps) simp

lemma minimal_loop_acc:
  "bigIntToBytesMinimal_loop n acc = acc @ bigIntToBytesMinimal_loop n []"
proof (induction "nat n" arbitrary: n acc rule: less_induct)
  case less
  show ?case
  proof (cases "0 < n")
    case True
    then have smaller: "nat (n div 256) < nat n"
      by (simp add: int_div_less_self zdiv_mono1 nat_less_iff pos_imp_zdiv_nonneg_iff)
    let ?b = "word_of_int (n AND 255) :: byte"
    have "bigIntToBytesMinimal_loop n acc = bigIntToBytesMinimal_loop (n div 256) (acc @ [?b])"
      using True by (rule minimal_loop_step)
    also have "\<dots> = (acc @ [?b]) @ bigIntToBytesMinimal_loop (n div 256) []"
      using smaller by (rule less.hyps)
    also have "\<dots> = acc @ ([?b] @ bigIntToBytesMinimal_loop (n div 256) [])"
      by simp
    also have "[?b] @ bigIntToBytesMinimal_loop (n div 256) [] = bigIntToBytesMinimal_loop (n div 256) [?b]"
      using less.hyps [OF smaller, of "[?b]"] by simp
    also have "\<dots> = bigIntToBytesMinimal_loop n []"
      using minimal_loop_step [OF True, of "[]"] by simp
    finally show ?thesis .
  next
    case False
    then show ?thesis
      by (simp add: minimal_loop_stop)
  qed
qed

lemma minimal_loop_value:
  "0 \<le> n \<Longrightarrow> bytesToBigInt (rev (bigIntToBytesMinimal_loop n [])) = n"
proof (induction "nat n" arbitrary: n rule: less_induct)
  case less
  show ?case
  proof (cases "0 < n")
    case True
    then have smaller: "nat (n div 256) < nat n"
      by (simp add: int_div_less_self zdiv_mono1 nat_less_iff pos_imp_zdiv_nonneg_iff)
    have nonneg: "0 \<le> n div 256"
      using True by (simp add: pos_imp_zdiv_nonneg_iff)
    let ?b = "word_of_int (n AND 255) :: byte"
    have "bigIntToBytesMinimal_loop n [] = [?b] @ bigIntToBytesMinimal_loop (n div 256) []"
      using minimal_loop_step [OF True, of "[]"] minimal_loop_acc [of "n div 256" "[?b]"] by simp
    then have "bytesToBigInt (rev (bigIntToBytesMinimal_loop n []))
        = bytesToBigInt (rev (bigIntToBytesMinimal_loop (n div 256) [])) * 256 + uint ?b"
      by (simp add: bytesToBigInt_append bytesToBigInt_Cons bytesToBigInt_Nil)
    also have "\<dots> = (n div 256) * 256 + n mod 256"
      using less.hyps [OF smaller nonneg] by (simp only: uint_low_byte)
    finally show ?thesis by simp
  next
    case False
    with less.prems have "n = 0" by simp
    then show ?thesis
      by (simp add: minimal_loop_stop bytesToBigInt_Nil)
  qed
qed

lemma bigIntToBytesMinimal_value:
  "0 \<le> n \<Longrightarrow> bytesToBigInt (bigIntToBytesMinimal n) = n"
  by (simp add: bigIntToBytesMinimal_def minimal_loop_value bytesToBigInt_Cons bytesToBigInt_Nil)

section \<open>Base-58 digits\<close>

text \<open>
  The alphabet has 58 distinct characters, so \<^verbatim>\<open>indexOf\<close> inverts the lookup. On a
  non-negative number the loop of \<^verbatim>\<open>encodeBlock\<close> writes one alphabet character per
  iteration, and the loop of \<^verbatim>\<open>decodeBlock\<close> reads the number back modulo
  \<open>58 ^ k\<close>.
\<close>

lemma indexOf_ge: "- 1 \<le> indexOf xs c"
  by (induction xs) (simp_all add: Let_def)

lemma indexOf_neg_iff: "indexOf xs c < 0 \<longleftrightarrow> c \<notin> set xs"
proof (induction xs)
  case Nil
  show ?case by simp
next
  case (Cons x xs)
  show ?case
    using Cons.IH indexOf_ge [of xs c] by (auto simp: Let_def)
qed

lemma indexOf_nth:
  "distinct xs \<Longrightarrow> i < length xs \<Longrightarrow> indexOf xs (xs ! i) = int i"
proof (induction xs arbitrary: i)
  case Nil
  then show ?case by simp
next
  case (Cons x xs)
  show ?case
  proof (cases i)
    case 0
    then show ?thesis by simp
  next
    case (Suc j)
    with Cons.prems have j: "j < length xs" and dx: "distinct xs" and nx: "x \<noteq> xs ! j"
      by auto
    from Cons.IH [OF dx j] show ?thesis
      using Suc nx by (simp add: Let_def)
  qed
qed

lemma nth_indexOf:
  "c \<in> set xs \<Longrightarrow> 0 \<le> indexOf xs c \<and> indexOf xs c < int (length xs) \<and> xs ! nat (indexOf xs c) = c"
proof (induction xs)
  case Nil
  then show ?case by simp
next
  case (Cons x xs)
  show ?case
  proof (cases "x = c")
    case True
    then show ?thesis by simp
  next
    case False
    with Cons.prems have "c \<in> set xs" by simp
    from Cons.IH [OF this] False show ?thesis
      by (simp add: Let_def nat_add_distrib)
  qed
qed

lemma length_ALPHABET: "length ALPHABET = 58"
  by (simp add: ALPHABET_def)

lemma distinct_ALPHABET: "distinct ALPHABET"
  by (simp add: ALPHABET_def)

lemma sdiv_BASE: "0 \<le> n \<Longrightarrow> n sdiv BASE = n div 58"
  by (simp add: signed_divide_int_def BASE_def sgn_if)

lemma smod_BASE: "0 \<le> n \<Longrightarrow> n smod BASE = n mod 58"
  by (simp add: signed_modulo_int_def BASE_def sgn_if)

lemma char_at_ALPHABET:
  "0 \<le> n \<Longrightarrow> char_at ALPHABET (n mod 58) = [ALPHABET ! nat (n mod 58)]"
  by (simp add: char_at_def length_ALPHABET)

lemma encodeBlock_loop_acc:
  "encodeBlock_loop k n chars = chars @ encodeBlock_loop k n []"
proof (induction k arbitrary: n chars)
  case 0
  show ?case by simp
next
  case (Suc k)
  have "encodeBlock_loop (Suc k) n chars
      = (chars @ [char_at ALPHABET (n smod BASE)]) @ encodeBlock_loop k (n sdiv BASE) []"
    using Suc.IH [of "n sdiv BASE" "chars @ [char_at ALPHABET (n smod BASE)]"] by simp
  also have "\<dots> = chars @ encodeBlock_loop (Suc k) n []"
    using Suc.IH [of "n sdiv BASE" "[char_at ALPHABET (n smod BASE)]"] by simp
  finally show ?case .
qed

lemma enc_digits_Suc:
  assumes "0 \<le> n"
  shows "concat (rev (encodeBlock_loop (Suc k) n []))
       = concat (rev (encodeBlock_loop k (n div 58) [])) @ [ALPHABET ! nat (n mod 58)]"
proof -
  have "encodeBlock_loop (Suc k) n []
      = [char_at ALPHABET (n smod BASE)] @ encodeBlock_loop k (n sdiv BASE) []"
    using encodeBlock_loop_acc [of k "n sdiv BASE" "[char_at ALPHABET (n smod BASE)]"] by simp
  then show ?thesis
    using assms by (simp add: sdiv_BASE smod_BASE char_at_ALPHABET)
qed

lemma enc_digits_length:
  "0 \<le> n \<Longrightarrow> length (concat (rev (encodeBlock_loop k n []))) = k"
proof (induction k arbitrary: n)
  case 0
  show ?case by simp
next
  case (Suc k)
  have "0 \<le> n div 58"
    using Suc.prems by (simp add: pos_imp_zdiv_nonneg_iff)
  from Suc.IH [OF this] show ?case
    by (simp only: enc_digits_Suc [OF Suc.prems]) simp
qed

lemma decodeBlock_loop_append:
  "decodeBlock_loop (xs @ ys) acc =
     (case decodeBlock_loop xs acc of Inl e \<Rightarrow> Inl e | Inr v \<Rightarrow> decodeBlock_loop ys v)"
  by (induction xs arbitrary: acc) (simp_all add: Let_def)

lemma decodeBlock_loop_digit:
  "0 \<le> n \<Longrightarrow> decodeBlock_loop [ALPHABET ! nat (n mod 58)] acc = Inr (acc * 58 + n mod 58)"
proof -
  assume "0 \<le> n"
  have "nat (n mod 58) < length ALPHABET"
    by (simp add: length_ALPHABET nat_less_iff)
  then have "indexOf ALPHABET (ALPHABET ! nat (n mod 58)) = int (nat (n mod 58))"
    by (rule indexOf_nth [OF distinct_ALPHABET])
  then show ?thesis
    by (simp add: Let_def BASE_def)
qed

lemma decode_enc_digits:
  "0 \<le> n \<Longrightarrow>
   decodeBlock_loop (concat (rev (encodeBlock_loop k n []))) acc = Inr (acc * 58 ^ k + n mod 58 ^ k)"
proof (induction k arbitrary: n)
  case 0
  show ?case by simp
next
  case (Suc k)
  have nn: "0 \<le> n div 58"
    using Suc.prems by (simp add: pos_imp_zdiv_nonneg_iff)
  have "decodeBlock_loop (concat (rev (encodeBlock_loop (Suc k) n []))) acc
      = Inr ((acc * 58 ^ k + (n div 58) mod 58 ^ k) * 58 + n mod 58)"
    by (simp only: enc_digits_Suc [OF Suc.prems] decodeBlock_loop_append Suc.IH [OF nn]
          decodeBlock_loop_digit [OF Suc.prems] sum.case)
  also have "(acc * 58 ^ k + (n div 58) mod 58 ^ k) * 58 + n mod 58
      = acc * 58 ^ Suc k + (58 * ((n div 58) mod 58 ^ k) + n mod 58)"
    by (simp add: algebra_simps)
  also have "58 * ((n div 58) mod 58 ^ k) + n mod 58 = n mod 58 ^ Suc k"
    using zmod_zmult2_eq [of "58 ^ k" n 58] by simp
  finally show ?case .
qed

lemma decodeBlock_loop_Inr_iff:
  "(\<exists>v. decodeBlock_loop g acc = Inr v) \<longleftrightarrow> set g \<subseteq> set ALPHABET"
proof (induction g arbitrary: acc)
  case Nil
  show ?case by simp
next
  case (Cons c cs)
  show ?case
    using Cons.IH [of "acc * BASE + indexOf ALPHABET c"]
    by (simp add: Let_def indexOf_neg_iff)
qed

lemma decodeBlock_loop_Inl:
  "decodeBlock_loop g acc = Inl e \<Longrightarrow>
     \<exists>c \<in> set g. c \<notin> set ALPHABET \<and> e = InvalidBase58Character c"
proof (induction g arbitrary: acc)
  case Nil
  then show ?case by simp
next
  case (Cons c cs)
  show ?case
  proof (cases "indexOf ALPHABET c < 0")
    case True
    with Cons.prems show ?thesis
      by (simp add: Let_def indexOf_neg_iff)
  next
    case False
    with Cons.prems have "decodeBlock_loop cs (acc * BASE + indexOf ALPHABET c) = Inl e"
      by (simp add: Let_def)
    from Cons.IH [OF this] show ?thesis
      by auto
  qed
qed

lemma decodeBlock_loop_nonneg:
  "decodeBlock_loop g acc = Inr v \<Longrightarrow> 0 \<le> acc \<Longrightarrow> 0 \<le> v"
proof (induction g arbitrary: acc)
  case Nil
  then show ?case by simp
next
  case (Cons c cs)
  from Cons.prems have ok: "\<not> indexOf ALPHABET c < 0"
    and rest: "decodeBlock_loop cs (acc * BASE + indexOf ALPHABET c) = Inr v"
    by (simp_all add: Let_def split: if_splits)
  have "0 \<le> acc * BASE + indexOf ALPHABET c"
    using ok Cons.prems(2) by (simp add: BASE_def)
  with Cons.IH [OF rest] show ?case .
qed

lemma enc_decodeBlock_loop:
  "decodeBlock_loop g acc = Inr v \<Longrightarrow> 0 \<le> acc \<Longrightarrow>
     concat (rev (encodeBlock_loop (length g) v [])) = g"
proof (induction g arbitrary: v rule: rev_induct)
  case Nil
  show ?case by simp
next
  case (snoc c cs)
  from snoc.prems(1) obtain w where w: "decodeBlock_loop cs acc = Inr w"
    and last: "decodeBlock_loop [c] w = Inr v"
    by (auto simp: decodeBlock_loop_append split: sum.splits)
  have w_nonneg: "0 \<le> w"
    using w snoc.prems(2) by (rule decodeBlock_loop_nonneg)
  from last have mem: "c \<in> set ALPHABET" and v: "v = w * 58 + indexOf ALPHABET c"
    by (simp_all add: Let_def indexOf_neg_iff BASE_def split: if_splits)
  note ix = nth_indexOf [OF mem]
  have ix58: "indexOf ALPHABET c < 58"
    using ix by (simp add: length_ALPHABET)
  have v_nonneg: "0 \<le> v"
    using v w_nonneg ix by simp
  have v_mod: "v mod 58 = indexOf ALPHABET c"
    using v ix ix58 by simp
  have v_div: "v div 58 = w"
    using v ix ix58 by simp
  have "concat (rev (encodeBlock_loop (length (cs @ [c])) v []))
      = concat (rev (encodeBlock_loop (length cs) w [])) @ [ALPHABET ! nat (indexOf ALPHABET c)]"
    using enc_digits_Suc [OF v_nonneg, of "length cs"] by (simp add: v_mod v_div)
  also have "\<dots> = cs @ [c]"
    using snoc.IH [OF w snoc.prems(2)] ix by simp
  finally show ?case .
qed

section \<open>One block, both directions\<close>

lemma decodeBlock_Inl:
  "decodeBlock_loop g 0 = Inl e \<Longrightarrow> decodeBlock g sz = Inl e"
  by (simp add: decodeBlock_def)

lemma decodeBlock_Inr:
  assumes "decodeBlock_loop g 0 = Inr v"
  shows "decodeBlock g sz =
           Inr (replicate (sz - length (bigIntToBytesMinimal v)) 0
                @ drop (length (bigIntToBytesMinimal v) - sz) (bigIntToBytesMinimal v))"
proof -
  define full where "full = bigIntToBytesMinimal v"
  show ?thesis
  proof (cases "length full > sz")
    case True
    then have "typed_set (replicate sz 0) (slice_list full (length full - sz) (length full - sz + sz)) 0
        = Inr (drop (length full - sz) full)"
      by (simp add: typed_set_def slice_list_def)
    then show ?thesis
      using True assms by (simp add: decodeBlock_def Let_def full_def [symmetric] min_def)
  next
    case False
    then have "typed_set (replicate sz 0) (slice_list full 0 (length full)) (sz - length full)
        = Inr (replicate (sz - length full) 0 @ full)"
      by (simp add: typed_set_def slice_list_def min_def)
    then show ?thesis
      using False assms by (simp add: decodeBlock_def Let_def full_def [symmetric] min_def)
  qed
qed

lemma decodeBlock_cases:
  "(\<exists>e. decodeBlock_loop g 0 = Inl e \<and> decodeBlock g sz = Inl e) \<or>
   (\<exists>v. decodeBlock_loop g 0 = Inr v \<and> 0 \<le> v \<and>
        decodeBlock g sz =
          Inr (replicate (sz - length (bigIntToBytesMinimal v)) 0
               @ drop (length (bigIntToBytesMinimal v) - sz) (bigIntToBytesMinimal v)))"
proof (cases "decodeBlock_loop g 0")
  case (Inl e)
  then show ?thesis by (simp add: decodeBlock_Inl)
next
  case (Inr v)
  moreover from Inr have "0 \<le> v"
    by (rule decodeBlock_loop_nonneg) simp
  ultimately show ?thesis by (simp add: decodeBlock_Inr)
qed

lemma pad_or_truncate_value:
  assumes "0 \<le> v"
  shows "bytesToBigInt (replicate (sz - length (bigIntToBytesMinimal v)) 0
           @ drop (length (bigIntToBytesMinimal v) - sz) (bigIntToBytesMinimal v)) = v mod 256 ^ sz"
proof -
  define full where "full = bigIntToBytesMinimal v"
  have val: "bytesToBigInt full = v"
    using assms by (simp add: full_def bigIntToBytesMinimal_value)
  have pad: "bytesToBigInt (replicate (sz - length full) 0 @ drop (length full - sz) full)
      = bytesToBigInt (drop (length full - sz) full)"
    by (simp add: bytesToBigInt_append bytesToBigInt_replicate_zero)
  have "bytesToBigInt (drop (length full - sz) full) = v mod 256 ^ sz"
  proof (cases "sz \<le> length full")
    case True
    then show ?thesis
      using bytesToBigInt_drop [of "length full - sz" full] by (simp add: val)
  next
    case False
    have "v < 256 ^ length full"
      using bytesToBigInt_bound [of full] by (simp add: val)
    also have "(256 :: int) ^ length full \<le> 256 ^ sz"
      using False by (intro power_increasing) simp_all
    finally have "v mod 256 ^ sz = v"
      using assms by simp
    then show ?thesis
      using False by (simp add: val)
  qed
  with pad show ?thesis
    by (simp add: full_def)
qed

lemma decodeBlock_value:
  assumes "decodeBlock g sz = Inr b"
  shows "length b = sz \<and>
         (\<exists>v. decodeBlock_loop g 0 = Inr v \<and> 0 \<le> v \<and> bytesToBigInt b = v mod 256 ^ sz)"
  using decodeBlock_cases [of g sz] assms
  by (auto simp: pad_or_truncate_value)

lemma decodeBlock_Inl_iff:
  "(\<exists>e. decodeBlock g sz = Inl e) \<longleftrightarrow> \<not> set g \<subseteq> set ALPHABET"
proof -
  have "(\<exists>e. decodeBlock g sz = Inl e) \<longleftrightarrow> \<not> (\<exists>v. decodeBlock_loop g 0 = Inr v)"
    using decodeBlock_cases [of g sz] by auto
  then show ?thesis
    by (simp only: decodeBlock_loop_Inr_iff)
qed

lemma decodeBlock_Inl_char:
  assumes "decodeBlock g sz = Inl e"
  shows "\<exists>c \<in> set g. c \<notin> set ALPHABET \<and> e = InvalidBase58Character c"
proof -
  from assms decodeBlock_cases [of g sz] have "decodeBlock_loop g 0 = Inl e"
    by auto
  then show ?thesis
    by (rule decodeBlock_loop_Inl)
qed

lemma decode_encodeBlock:
  assumes len: "length blk = sz" and cap: "(256 :: int) ^ sz \<le> 58 ^ k"
  shows "decodeBlock (encodeBlock blk k) sz = Inr blk"
proof -
  define v where "v = bytesToBigInt blk"
  have v0: "0 \<le> v" and vlt: "v < 256 ^ sz"
    using bytesToBigInt_nonneg [of blk] bytesToBigInt_bound [of blk] len by (simp_all add: v_def)
  have "v < 58 ^ k"
    using vlt cap by simp
  then have "decodeBlock_loop (encodeBlock blk k) 0 = Inr v"
    using decode_enc_digits [OF v0, of k 0] v0 by (simp add: encodeBlock_def v_def)
  then obtain b where b: "decodeBlock (encodeBlock blk k) sz = Inr b"
    by (auto simp: decodeBlock_Inr)
  with \<open>decodeBlock_loop (encodeBlock blk k) 0 = Inr v\<close>
  have "length b = sz" and "bytesToBigInt b = v mod 256 ^ sz"
    using decodeBlock_value [OF b] by auto
  then have "length b = length blk" and "bytesToBigInt b = bytesToBigInt blk"
    using len v0 vlt by (simp_all add: v_def)
  then have "b = blk"
    by (rule bytesToBigInt_inject)
  with b show ?thesis by simp
qed

lemma encode_decodeBlock:
  assumes dec: "decodeBlock g sz = Inr b"
    and val: "decodeBlock_loop g 0 = Inr v" and fits: "v < 256 ^ sz"
  shows "encodeBlock b (length g) = g"
proof -
  from decodeBlock_value [OF dec] val have "0 \<le> v" and "bytesToBigInt b = v mod 256 ^ sz"
    by auto
  with fits have "bytesToBigInt b = v"
    by simp
  then show ?thesis
    using enc_decodeBlock_loop [OF val] by (simp add: encodeBlock_def)
qed

lemma length_encodeBlock: "length (encodeBlock blk k) = k"
  unfolding encodeBlock_def by (rule enc_digits_length) (rule bytesToBigInt_nonneg)

section \<open>The loops over the full blocks\<close>

lemma cnBase58Encode_loop_eq:
  "cnBase58Encode_loop data i n parts
     = parts @ map (\<lambda>j. encodeBlock (slice_list data (j * 8) (j * 8 + 8)) 11) [i..<n]"
proof (induction data i n parts rule: cnBase58Encode_loop.induct)
  case (1 data i n parts)
  show ?case
  proof (cases "i < n")
    case True
    have "cnBase58Encode_loop data i n parts
        = cnBase58Encode_loop data (i + 1) n (parts @ [encodeBlock (slice_list data (i * 8) (i * 8 + 8)) 11])"
      using True
      by (subst cnBase58Encode_loop.simps)
         (simp add: FULL_BLOCK_SIZE_def FULL_ENCODED_BLOCK_SIZE_def Let_def)
    also have "\<dots> = (parts @ [encodeBlock (slice_list data (i * 8) (i * 8 + 8)) 11])
        @ map (\<lambda>j. encodeBlock (slice_list data (j * 8) (j * 8 + 8)) 11) [i + 1..<n]"
      using "1.IH" [OF True refl refl]
      by (simp add: FULL_BLOCK_SIZE_def FULL_ENCODED_BLOCK_SIZE_def Let_def)
    finally show ?thesis
      using True by (simp add: upt_conv_Cons)
  next
    case False
    then show ?thesis
      by (subst cnBase58Encode_loop.simps) simp
  qed
qed

lemma cnBase58Decode_loop_step:
  "i < n \<Longrightarrow> cnBase58Decode_loop encoded i n bytes =
     (case decodeBlock (slice_list encoded (i * 11) (i * 11 + 11)) 8 of
        Inl e \<Rightarrow> Inl e
      | Inr blk \<Rightarrow> cnBase58Decode_loop encoded (Suc i) n (bytes @ blk))"
  by (subst cnBase58Decode_loop.simps)
     (simp add: FULL_BLOCK_SIZE_def FULL_ENCODED_BLOCK_SIZE_def Let_def split: sum.splits)

lemma cnBase58Decode_loop_stop:
  "\<not> i < n \<Longrightarrow> cnBase58Decode_loop encoded i n bytes = Inr bytes"
  by (subst cnBase58Decode_loop.simps) simp

lemma cnBase58Decode_loop_Inr:
  "(\<And>j. i \<le> j \<Longrightarrow> j < n \<Longrightarrow> decodeBlock (slice_list encoded (j * 11) (j * 11 + 11)) 8 = Inr (f j))
   \<Longrightarrow> cnBase58Decode_loop encoded i n bytes = Inr (bytes @ concat (map f [i..<n]))"
proof (induction "n - i" arbitrary: i bytes)
  case 0
  then show ?case
    by (simp add: cnBase58Decode_loop_stop)
next
  case (Suc d)
  then have lt: "i < n" by simp
  have here: "decodeBlock (slice_list encoded (i * 11) (i * 11 + 11)) 8 = Inr (f i)"
    using lt by (intro Suc.prems) simp_all
  have "cnBase58Decode_loop encoded (Suc i) n (bytes @ f i)
      = Inr ((bytes @ f i) @ concat (map f [Suc i..<n]))"
    using Suc.hyps(2) Suc.prems by (intro Suc.hyps(1)) simp_all
  then show ?case
    using lt here by (simp add: cnBase58Decode_loop_step upt_conv_Cons)
qed

lemma cnBase58Decode_loop_Inl:
  "cnBase58Decode_loop encoded i n bytes = Inl e \<Longrightarrow>
     \<exists>j. i \<le> j \<and> j < n \<and> decodeBlock (slice_list encoded (j * 11) (j * 11 + 11)) 8 = Inl e"
proof (induction "n - i" arbitrary: i bytes)
  case 0
  then show ?case
    by (simp add: cnBase58Decode_loop_stop)
next
  case (Suc d)
  then have lt: "i < n" by simp
  show ?case
  proof (cases "decodeBlock (slice_list encoded (i * 11) (i * 11 + 11)) 8")
    case (Inl e')
    with Suc.prems lt have "e' = e"
      by (simp add: cnBase58Decode_loop_step)
    with Inl lt show ?thesis by auto
  next
    case (Inr blk)
    with Suc.prems lt have "cnBase58Decode_loop encoded (Suc i) n (bytes @ blk) = Inl e"
      by (simp add: cnBase58Decode_loop_step)
    moreover have "d = n - Suc i"
      using Suc.hyps(2) by simp
    ultimately obtain j where "Suc i \<le> j" "j < n"
        "decodeBlock (slice_list encoded (j * 11) (j * 11 + 11)) 8 = Inl e"
      using Suc.hyps(1) by blast
    then show ?thesis
      by (intro exI [of _ j]) simp
  qed
qed

lemma cnBase58Decode_loop_blocks:
  "cnBase58Decode_loop encoded i n bytes = Inr r \<Longrightarrow> i \<le> j \<Longrightarrow> j < n \<Longrightarrow>
     \<exists>b. decodeBlock (slice_list encoded (j * 11) (j * 11 + 11)) 8 = Inr b"
proof (induction "n - i" arbitrary: i bytes)
  case 0
  then show ?case by simp
next
  case (Suc d)
  then have lt: "i < n" by simp
  from Suc.prems(1) lt obtain blk
    where blk: "decodeBlock (slice_list encoded (i * 11) (i * 11 + 11)) 8 = Inr blk"
      and rest: "cnBase58Decode_loop encoded (Suc i) n (bytes @ blk) = Inr r"
    by (auto simp: cnBase58Decode_loop_step split: sum.splits)
  show ?case
  proof (cases "j = i")
    case True
    with blk show ?thesis by simp
  next
    case False
    with Suc.prems have "Suc i \<le> j" by simp
    moreover have "d = n - Suc i"
      using Suc.hyps(2) by simp
    ultimately show ?thesis
      using Suc.hyps(1) rest Suc.prems(3) by blast
  qed
qed

lemma length_concat_blocks:
  "(\<And>j. j < n \<Longrightarrow> length (f j) = k) \<Longrightarrow> length (concat (map f [0..<n])) = n * k"
  by (induction n) simp_all

lemma slice_concat_blocks:
  "(\<And>i. i < n \<Longrightarrow> length (f i) = k) \<Longrightarrow> j < n \<Longrightarrow>
     slice_list (concat (map f [0..<n]) @ rest) (j * k) (j * k + k) = f j"
proof (induction n arbitrary: rest)
  case 0
  then show ?case by simp
next
  case (Suc n)
  have len: "length (concat (map f [0..<n])) = n * k"
    using Suc.prems(1) by (intro length_concat_blocks) simp
  show ?case
  proof (cases "j < n")
    case True
    have "slice_list (concat (map f [0..<n]) @ (f n @ rest)) (j * k) (j * k + k) = f j"
      using Suc.prems(1) True by (intro Suc.IH) simp_all
    then show ?thesis by simp
  next
    case False
    with Suc.prems(2) have "j = n" by simp
    then show ?thesis
      using len Suc.prems(1) [of n] by (simp add: slice_list_def)
  qed
qed

lemma drop_concat_blocks:
  "(\<And>i. i < n \<Longrightarrow> length (f i) = k) \<Longrightarrow> drop (n * k) (concat (map f [0..<n]) @ rest) = rest"
  using length_concat_blocks [of n f k] by simp

lemma concat_slices:
  "n * k \<le> length xs \<Longrightarrow> concat (map (\<lambda>j. slice_list xs (j * k) (j * k + k)) [0..<n]) = take (n * k) xs"
proof (induction n)
  case 0
  show ?case by simp
next
  case (Suc n)
  then have "n * k \<le> length xs" by simp
  from Suc.IH [OF this]
  have "concat (map (\<lambda>j. slice_list xs (j * k) (j * k + k)) [0..<Suc n])
      = take (n * k) xs @ take k (drop (n * k) xs)"
    by (simp add: slice_list_def)
  also have "\<dots> = take (n * k + k) xs"
    by (simp only: take_add)
  finally show ?case
    by (simp add: add.commute)
qed

lemma length_slice_block:
  "j < length xs div k \<Longrightarrow> length (slice_list xs (j * k) (j * k + k)) = k"
proof -
  assume "j < length xs div k"
  then have "Suc j * k \<le> length xs div k * k"
    by (intro mult_le_mono1) simp
  also have "\<dots> \<le> length xs"
    by simp
  finally show ?thesis
    by (simp add: slice_list_def)
qed

lemma encoded_size_table:
  assumes "0 < m" and "m < 8"
  shows "\<exists>w. getEncodedBlockSize m = Inr w \<and> getDecodedBlockSize w = Inr m
            \<and> 0 < w \<and> w < 11 \<and> (256 :: int) ^ m \<le> 58 ^ w"
proof -
  from assms have "m = 1 \<or> m = 2 \<or> m = 3 \<or> m = 4 \<or> m = 5 \<or> m = 6 \<or> m = 7"
    by arith
  then show ?thesis
    by (elim disjE) (simp_all add: getEncodedBlockSize_def getDecodedBlockSize_def)
qed

lemma decoded_size_table:
  assumes "getDecodedBlockSize w = Inr m"
  shows "getEncodedBlockSize m = Inr w \<and> 0 < m \<and> m \<le> 8 \<and> (w < 11 \<longrightarrow> m < 8)"
  using assms
  by (simp add: getEncodedBlockSize_def getDecodedBlockSize_def split: if_splits)

section \<open>The codec on whole inputs\<close>

lemma cnBase58Encode_no_tail:
  assumes "length data mod 8 = 0"
  shows "cnBase58Encode data =
           Inr (concat (map (\<lambda>j. encodeBlock (slice_list data (j * 8) (j * 8 + 8)) 11)
                  [0..<length data div 8]))"
  using assms
  by (simp add: cnBase58Encode_def Let_def FULL_BLOCK_SIZE_def cnBase58Encode_loop_eq)

lemma cnBase58Encode_tail:
  assumes "0 < length data mod 8" and "getEncodedBlockSize (length data mod 8) = Inr w"
  shows "cnBase58Encode data =
           Inr (concat (map (\<lambda>j. encodeBlock (slice_list data (j * 8) (j * 8 + 8)) 11)
                  [0..<length data div 8])
                @ encodeBlock (drop (length data div 8 * 8) data) w)"
  using assms
  by (simp add: cnBase58Encode_def Let_def FULL_BLOCK_SIZE_def cnBase58Encode_loop_eq)

lemma cnBase58Decode_unfold:
  "cnBase58Decode s =
     (case cnBase58Decode_loop s 0 (length s div 11) [] of
        Inl e \<Rightarrow> Inl e
      | Inr bytes \<Rightarrow>
          (if 0 < length s mod 11
           then (case getDecodedBlockSize (length s mod 11) of
                   Inl e \<Rightarrow> Inl e
                 | Inr d \<Rightarrow>
                     (case decodeBlock (drop (length s div 11 * 11) s) d of
                        Inl e \<Rightarrow> Inl e
                      | Inr blk \<Rightarrow> Inr (bytes @ blk)))
           else Inr bytes))"
  by (simp add: cnBase58Decode_def Let_def FULL_ENCODED_BLOCK_SIZE_def split: sum.splits)

lemma encode_total:
  "\<exists>s. cnBase58Encode b = Inr s"
proof (cases "0 < length b mod 8")
  case True
  then obtain w where "getEncodedBlockSize (length b mod 8) = Inr w"
    using encoded_size_table [of "length b mod 8"] by auto
  with True show ?thesis
    by (simp add: cnBase58Encode_tail)
next
  case False
  then show ?thesis
    by (simp add: cnBase58Encode_no_tail)
qed

lemma encode_length:
  assumes "cnBase58Encode b = Inr s"
  shows "length s = 11 * (length b div 8) + [0, 2, 3, 5, 6, 7, 9, 10] ! (length b mod 8)"
proof -
  let ?f = "\<lambda>j. encodeBlock (slice_list b (j * 8) (j * 8 + 8)) 11"
  have full: "length (concat (map ?f [0..<length b div 8])) = length b div 8 * 11"
    by (rule length_concat_blocks) (rule length_encodeBlock)
  show ?thesis
  proof (cases "0 < length b mod 8")
    case False
    with assms full show ?thesis
      by (simp add: cnBase58Encode_no_tail)
  next
    case True
    have "length b mod 8 < 8" by simp
    with True have "length b mod 8 \<in> {1, 2, 3, 4, 5, 6, 7}"
      by (simp only: insert_iff empty_iff) arith
    then have "getEncodedBlockSize (length b mod 8)
        = Inr ([0, 2, 3, 5, 6, 7, 9, 10] ! (length b mod 8))"
      by (auto simp: getEncodedBlockSize_def)
    from cnBase58Encode_tail [OF True this] assms full show ?thesis
      by (auto simp: length_encodeBlock)
  qed
qed

lemma decode_full_blocks_of_encode:
  assumes "n = length b div 8"
  shows "cnBase58Decode_loop
           (concat (map (\<lambda>j. encodeBlock (slice_list b (j * 8) (j * 8 + 8)) 11) [0..<n]) @ rest)
           0 n [] = Inr (take (n * 8) b)"
proof -
  let ?f = "\<lambda>j. encodeBlock (slice_list b (j * 8) (j * 8 + 8)) 11"
  let ?s = "concat (map ?f [0..<n]) @ rest"
  have blk: "decodeBlock (slice_list ?s (j * 11) (j * 11 + 11)) 8 = Inr (slice_list b (j * 8) (j * 8 + 8))"
    if "j < n" for j
  proof -
    have "slice_list ?s (j * 11) (j * 11 + 11) = ?f j"
      using that by (intro slice_concat_blocks) (simp_all add: length_encodeBlock)
    moreover have "length (slice_list b (j * 8) (j * 8 + 8)) = 8"
      using that assms by (intro length_slice_block) simp
    ultimately show ?thesis
      using decode_encodeBlock [of "slice_list b (j * 8) (j * 8 + 8)" 8 11] by simp
  qed
  have "cnBase58Decode_loop ?s 0 n []
      = Inr ([] @ concat (map (\<lambda>j. slice_list b (j * 8) (j * 8 + 8)) [0..<n]))"
    by (rule cnBase58Decode_loop_Inr) (simp add: blk)
  moreover have "n * 8 \<le> length b"
    using assms by simp
  ultimately show ?thesis
    by (simp add: concat_slices)
qed

lemma decode_encode:
  assumes "cnBase58Encode b = Inr s"
  shows "cnBase58Decode s = Inr b"
proof -
  define n where "n = length b div 8"
  let ?f = "\<lambda>j. encodeBlock (slice_list b (j * 8) (j * 8 + 8)) 11"
  have full_len: "length (concat (map ?f [0..<n])) = n * 11"
    by (rule length_concat_blocks) (rule length_encodeBlock)
  show ?thesis
  proof (cases "0 < length b mod 8")
    case False
    then have s: "s = concat (map ?f [0..<n]) @ []"
      using assms by (simp add: cnBase58Encode_no_tail n_def)
    have len: "length s = n * 11"
      using full_len s by simp
    have "cnBase58Decode_loop s 0 n [] = Inr (take (n * 8) b)"
      unfolding s using n_def by (rule decode_full_blocks_of_encode)
    moreover have "n * 8 = length b"
      using False div_mult_mod_eq [of "length b" 8] by (simp add: n_def)
    ultimately show ?thesis
      by (simp add: cnBase58Decode_unfold len)
  next
    case True
    then obtain w where w: "getEncodedBlockSize (length b mod 8) = Inr w"
      and dw: "getDecodedBlockSize w = Inr (length b mod 8)"
      and w_pos: "0 < w" and w_lt: "w < 11"
      and cap: "(256 :: int) ^ (length b mod 8) \<le> 58 ^ w"
      using encoded_size_table [of "length b mod 8"] by auto
    let ?t = "encodeBlock (drop (n * 8) b) w"
    have s: "s = concat (map ?f [0..<n]) @ ?t"
      using assms cnBase58Encode_tail [OF True w] by (simp add: n_def)
    have len: "length s = n * 11 + w"
      using full_len s by (simp add: length_encodeBlock)
    have quot: "length s div 11 = n" and rem: "length s mod 11 = w"
      using len w_lt by simp_all
    have loop: "cnBase58Decode_loop s 0 n [] = Inr (take (n * 8) b)"
      unfolding s using n_def by (rule decode_full_blocks_of_encode)
    have tail: "drop (n * 11) s = ?t"
      unfolding s by (rule drop_concat_blocks) (rule length_encodeBlock)
    have "length (drop (n * 8) b) = length b mod 8"
      by (simp add: n_def minus_mult_div_eq_mod mult.commute)
    then have "decodeBlock ?t (length b mod 8) = Inr (drop (n * 8) b)"
      using cap by (rule decode_encodeBlock)
    then show ?thesis
      using loop tail dw w_pos by (simp add: cnBase58Decode_unfold quot rem)
  qed
qed

section \<open>Re-encoding what was decoded\<close>

text \<open>
  A group that fits its block is written back unchanged by \<^verbatim>\<open>encodeBlock\<close>, and
  every group that \<^verbatim>\<open>encodeBlock\<close> writes fits the block it came from.
\<close>

lemma group_fitsD:
  "group_fits g sz \<Longrightarrow> \<exists>v. decodeBlock_loop g 0 = Inr v \<and> v < 256 ^ sz"
  by (auto simp: group_fits_def split: sum.splits)

lemma no_overflow_full:
  "no_overflow s \<Longrightarrow> j < length s div 11 \<Longrightarrow>
     group_fits (slice_list s (j * 11) (j * 11 + 11)) 8"
  by (simp add: no_overflow_def Let_def FULL_ENCODED_BLOCK_SIZE_def FULL_BLOCK_SIZE_def list_all_iff)

lemma no_overflow_tail:
  "no_overflow s \<Longrightarrow> getDecodedBlockSize (length s mod 11) = Inr d \<Longrightarrow>
     group_fits (drop (length s div 11 * 11) s) d"
  by (simp add: no_overflow_def Let_def FULL_ENCODED_BLOCK_SIZE_def)

lemma decode_full_blocks:
  assumes "cnBase58Decode_loop s 0 n [] = Inr r"
  shows "r = concat (map (\<lambda>j. projr (decodeBlock (slice_list s (j * 11) (j * 11 + 11)) 8)) [0..<n])
         \<and> (\<forall>j<n. decodeBlock (slice_list s (j * 11) (j * 11 + 11)) 8
                    = Inr (projr (decodeBlock (slice_list s (j * 11) (j * 11 + 11)) 8)))"
proof -
  let ?g = "\<lambda>j. projr (decodeBlock (slice_list s (j * 11) (j * 11 + 11)) 8)"
  have blk: "decodeBlock (slice_list s (j * 11) (j * 11 + 11)) 8 = Inr (?g j)" if "j < n" for j
    using cnBase58Decode_loop_blocks [OF assms _ that] by auto
  then have "cnBase58Decode_loop s 0 n [] = Inr ([] @ concat (map ?g [0..<n]))"
    by (intro cnBase58Decode_loop_Inr) simp
  with assms blk show ?thesis
    by simp
qed

lemma encode_full_blocks_of_decode:
  assumes loop: "cnBase58Decode_loop s 0 n [] = Inr r" and n: "n = length s div 11"
    and fit: "no_overflow s"
  shows "(\<forall>j<n. length (projr (decodeBlock (slice_list s (j * 11) (j * 11 + 11)) 8)) = 8) \<and>
         concat (map (\<lambda>j. encodeBlock (slice_list (r @ rest) (j * 8) (j * 8 + 8)) 11) [0..<n])
           = take (n * 11) s"
proof -
  let ?g = "\<lambda>j. projr (decodeBlock (slice_list s (j * 11) (j * 11 + 11)) 8)"
  from decode_full_blocks [OF loop]
  have r: "r = concat (map ?g [0..<n])"
    and blk: "\<And>j. j < n \<Longrightarrow> decodeBlock (slice_list s (j * 11) (j * 11 + 11)) 8 = Inr (?g j)"
    by simp_all
  have len: "length (?g j) = 8" if "j < n" for j
    using decodeBlock_value [OF blk [OF that]] by simp
  have reenc: "encodeBlock (slice_list (r @ rest) (j * 8) (j * 8 + 8)) 11
      = slice_list s (j * 11) (j * 11 + 11)" if "j < n" for j
  proof -
    have jn: "j < length s div 11"
      using that n by simp
    obtain v where v: "decodeBlock_loop (slice_list s (j * 11) (j * 11 + 11)) 0 = Inr v"
      and vfit: "v < 256 ^ 8"
      using group_fitsD [OF no_overflow_full [OF fit jn]] by blast
    have "slice_list (r @ rest) (j * 8) (j * 8 + 8) = ?g j"
      unfolding r using len that by (intro slice_concat_blocks) simp_all
    moreover have "length (slice_list s (j * 11) (j * 11 + 11)) = 11"
      using jn by (rule length_slice_block)
    ultimately show ?thesis
      using encode_decodeBlock [OF blk [OF that] v vfit] by simp
  qed
  have "concat (map (\<lambda>j. encodeBlock (slice_list (r @ rest) (j * 8) (j * 8 + 8)) 11) [0..<n])
      = concat (map (\<lambda>j. slice_list s (j * 11) (j * 11 + 11)) [0..<n])"
    using reenc by (intro arg_cong [where f = concat] map_cong) simp_all
  also have "\<dots> = take (n * 11) s"
    using n by (intro concat_slices) simp
  finally show ?thesis
    using len by simp
qed

lemma encode_decode:
  assumes dec: "cnBase58Decode s = Inr bs" and fit: "no_overflow s"
  shows "cnBase58Encode bs = Inr s"
proof -
  define n where "n = length s div 11"
  from dec obtain r where loop: "cnBase58Decode_loop s 0 n [] = Inr r"
    by (auto simp: cnBase58Decode_unfold n_def split: sum.splits)
  let ?g = "\<lambda>j. projr (decodeBlock (slice_list s (j * 11) (j * 11 + 11)) 8)"
  have r: "r = concat (map ?g [0..<n])"
    using decode_full_blocks [OF loop] by simp
  have glen: "\<And>j. j < n \<Longrightarrow> length (?g j) = 8"
    using encode_full_blocks_of_decode [OF loop n_def fit] by simp
  have rlen: "length r = n * 8"
    unfolding r using glen by (rule length_concat_blocks)
  have full: "concat (map (\<lambda>j. encodeBlock (slice_list (r @ rest) (j * 8) (j * 8 + 8)) 11) [0..<n])
      = take (n * 11) s" for rest
    using encode_full_blocks_of_decode [OF loop n_def fit] by simp
  have split: "n * 11 + length s mod 11 = length s"
    by (simp add: n_def)
  show ?thesis
  proof (cases "0 < length s mod 11")
    case False
    with dec loop have bs: "bs = r @ []"
      by (simp add: cnBase58Decode_unfold n_def)
    have "length bs mod 8 = 0" and "length bs div 8 = n"
      using rlen bs by simp_all
    then have "cnBase58Encode bs = Inr (take (n * 11) s)"
      using full [of "[]"] by (simp add: cnBase58Encode_no_tail bs)
    moreover have "n * 11 = length s"
      using False split by simp
    ultimately show ?thesis by simp
  next
    case True
    with dec loop obtain d t where d: "getDecodedBlockSize (length s mod 11) = Inr d"
      and t: "decodeBlock (drop (n * 11) s) d = Inr t" and bs: "bs = r @ t"
      by (auto simp: cnBase58Decode_unfold n_def split: sum.splits)
    have "length s mod 11 < 11" by simp
    with decoded_size_table [OF d]
    have e: "getEncodedBlockSize d = Inr (length s mod 11)" and d_pos: "0 < d" and d_lt: "d < 8"
      by simp_all
    have tlen: "length t = d"
      using decodeBlock_value [OF t] by simp
    have quot: "length bs div 8 = n" and rem: "length bs mod 8 = d"
      using rlen tlen d_lt bs by simp_all
    obtain v where v: "decodeBlock_loop (drop (n * 11) s) 0 = Inr v" and vfit: "v < 256 ^ d"
      using group_fitsD [OF no_overflow_tail [OF fit d]] by (auto simp: n_def)
    have "length (drop (n * 11) s) = length s mod 11"
      using split by simp
    then have tail: "encodeBlock t (length s mod 11) = drop (n * 11) s"
      using encode_decodeBlock [OF t v vfit] by simp
    have last: "drop (n * 8) bs = t"
      using rlen bs by simp
    have "0 < length bs mod 8" and "getEncodedBlockSize (length bs mod 8) = Inr (length s mod 11)"
      using d_pos e by (simp_all add: rem)
    then have "cnBase58Encode bs =
        Inr (concat (map (\<lambda>j. encodeBlock (slice_list bs (j * 8) (j * 8 + 8)) 11)
               [0..<length bs div 8])
             @ encodeBlock (drop (length bs div 8 * 8) bs) (length s mod 11))"
      by (rule cnBase58Encode_tail)
    also have "\<dots> = Inr (take (n * 11) s @ drop (n * 11) s)"
      using full [of t] unfolding bs [symmetric] by (simp only: last tail quot)
    finally show ?thesis by simp
  qed
qed

lemma group_fits_encodeBlock:
  assumes "length blk = sz"
  shows "group_fits (encodeBlock blk k) sz"
proof -
  define v where "v = bytesToBigInt blk"
  have v0: "0 \<le> v" and vlt: "v < 256 ^ sz"
    using bytesToBigInt_nonneg [of blk] bytesToBigInt_bound [of blk] assms by (simp_all add: v_def)
  have "decodeBlock_loop (encodeBlock blk k) 0 = Inr (v mod 58 ^ k)"
    using decode_enc_digits [OF v0, of k 0] by (simp add: encodeBlock_def v_def)
  moreover have "v mod 58 ^ k \<le> v"
    using v0 by (rule zmod_le_nonneg_dividend)
  ultimately show ?thesis
    using vlt by (simp add: group_fits_def)
qed

lemma no_overflow_encode:
  assumes "cnBase58Encode b = Inr s"
  shows "no_overflow s"
proof -
  define n where "n = length b div 8"
  let ?f = "\<lambda>j. encodeBlock (slice_list b (j * 8) (j * 8 + 8)) 11"
  have full_len: "length (concat (map ?f [0..<n])) = n * 11"
    by (rule length_concat_blocks) (rule length_encodeBlock)
  have group: "group_fits (slice_list (concat (map ?f [0..<n]) @ rest) (j * 11) (j * 11 + 11)) 8"
    if "j < n" for j rest
  proof -
    have "slice_list (concat (map ?f [0..<n]) @ rest) (j * 11) (j * 11 + 11) = ?f j"
      using that by (intro slice_concat_blocks) (simp_all add: length_encodeBlock)
    moreover have "length (slice_list b (j * 8) (j * 8 + 8)) = 8"
      using that by (intro length_slice_block) (simp add: n_def)
    ultimately show ?thesis
      by (simp add: group_fits_encodeBlock)
  qed
  show ?thesis
  proof (cases "0 < length b mod 8")
    case False
    then have s: "s = concat (map ?f [0..<n]) @ []"
      using assms by (simp add: cnBase58Encode_no_tail n_def)
    have len: "length s = n * 11"
      using full_len s by simp
    have "\<forall>j<n. group_fits (slice_list s (j * 11) (j * 11 + 11)) 8"
      unfolding s using group by blast
    then show ?thesis
      by (simp add: no_overflow_def Let_def FULL_ENCODED_BLOCK_SIZE_def FULL_BLOCK_SIZE_def
            list_all_iff len getDecodedBlockSize_def)
  next
    case True
    then obtain w where w: "getEncodedBlockSize (length b mod 8) = Inr w"
      and dw: "getDecodedBlockSize w = Inr (length b mod 8)" and w_lt: "w < 11"
      using encoded_size_table [of "length b mod 8"] by auto
    let ?t = "encodeBlock (drop (n * 8) b) w"
    have s: "s = concat (map ?f [0..<n]) @ ?t"
      using assms cnBase58Encode_tail [OF True w] by (simp add: n_def)
    have len: "length s = n * 11 + w"
      using full_len s by (simp add: length_encodeBlock)
    have quot: "length s div 11 = n" and rem: "length s mod 11 = w"
      using len w_lt by simp_all
    have heads: "\<forall>j<n. group_fits (slice_list s (j * 11) (j * 11 + 11)) 8"
      unfolding s using group by blast
    have "drop (n * 11) s = ?t"
      unfolding s by (rule drop_concat_blocks) (rule length_encodeBlock)
    moreover have "length (drop (n * 8) b) = length b mod 8"
      by (simp add: n_def minus_mult_div_eq_mod mult.commute)
    ultimately have "group_fits (drop (n * 11) s) (length b mod 8)"
      by (simp add: group_fits_encodeBlock)
    with heads show ?thesis
      by (simp add: no_overflow_def Let_def FULL_ENCODED_BLOCK_SIZE_def FULL_BLOCK_SIZE_def
            list_all_iff quot rem dw)
  qed
qed

section \<open>Failures and shape of the decoded bytes\<close>

lemma set_slice_list: "set (slice_list xs a b) \<subseteq> set xs"
  by (auto simp: slice_list_def dest: in_set_takeD in_set_dropD)

lemma missing_encoded_size:
  assumes "getDecodedBlockSize m = Inl e" and "0 < m" and "m < 11"
  shows "m \<in> {1, 4, 8} \<and> e = InvalidEncodedBlockSize m"
proof -
  from assms(1) have "e = InvalidEncodedBlockSize m" and "m \<notin> {2, 3, 5, 6, 7, 9, 10, 11}"
    by (auto simp: getDecodedBlockSize_def split: if_splits)
  moreover from this(2) assms(2,3) have "m = 1 \<or> m = 4 \<or> m = 8"
    by (simp only: insert_iff empty_iff) arith
  ultimately show ?thesis by simp
qed

lemma present_encoded_size:
  "getDecodedBlockSize m = Inr d \<Longrightarrow> m \<notin> {0, 1, 4, 8}"
  by (auto simp: getDecodedBlockSize_def split: if_splits)

lemma decode_error_kind:
  assumes "cnBase58Decode s = Inl e"
  shows "(\<exists>c \<in> set s. c \<notin> set ALPHABET \<and> e = InvalidBase58Character c) \<or>
         (length s mod 11 \<in> {1, 4, 8} \<and> e = InvalidEncodedBlockSize (length s mod 11))"
proof (cases "cnBase58Decode_loop s 0 (length s div 11) []")
  case (Inl e')
  with assms have "e' = e"
    by (simp add: cnBase58Decode_unfold)
  with Inl obtain j where "decodeBlock (slice_list s (j * 11) (j * 11 + 11)) 8 = Inl e"
    using cnBase58Decode_loop_Inl by blast
  then obtain c where "c \<in> set (slice_list s (j * 11) (j * 11 + 11))"
    and "c \<notin> set ALPHABET" and "e = InvalidBase58Character c"
    using decodeBlock_Inl_char by blast
  then show ?thesis
    using set_slice_list [of s "j * 11" "j * 11 + 11"] by blast
next
  case (Inr r)
  with assms have tail: "0 < length s mod 11"
    by (auto simp: cnBase58Decode_unfold split: if_splits)
  show ?thesis
  proof (cases "getDecodedBlockSize (length s mod 11)")
    case (Inl e')
    with assms Inr tail have "e' = e"
      by (simp add: cnBase58Decode_unfold)
    with Inl tail show ?thesis
      using missing_encoded_size [of "length s mod 11" e] by simp
  next
    case d: (Inr d)
    with assms Inr tail have "decodeBlock (drop (length s div 11 * 11) s) d = Inl e"
      by (simp add: cnBase58Decode_unfold split: sum.splits)
    then obtain c where "c \<in> set (drop (length s div 11 * 11) s)"
      and "c \<notin> set ALPHABET" and "e = InvalidBase58Character c"
      using decodeBlock_Inl_char by blast
    then show ?thesis
      by (blast dest: in_set_dropD)
  qed
qed

lemma decode_ok_input:
  assumes "cnBase58Decode s = Inr bs"
  shows "set s \<subseteq> set ALPHABET \<and> length s mod 11 \<notin> {1, 4, 8}"
proof -
  define n where "n = length s div 11"
  from assms obtain r where loop: "cnBase58Decode_loop s 0 n [] = Inr r"
    by (auto simp: cnBase58Decode_unfold n_def split: sum.splits)
  have blk: "set (slice_list s (j * 11) (j * 11 + 11)) \<subseteq> set ALPHABET" if "j < n" for j
  proof -
    have jn: "j < n" by (rule that)
    obtain b where "decodeBlock (slice_list s (j * 11) (j * 11 + 11)) 8 = Inr b"
      using cnBase58Decode_loop_blocks [OF loop _ jn] by auto
    then show ?thesis
      using decodeBlock_Inl_iff [of "slice_list s (j * 11) (j * 11 + 11)" 8] by auto
  qed
  have "take (n * 11) s = concat (map (\<lambda>j. slice_list s (j * 11) (j * 11 + 11)) [0..<n])"
    by (rule concat_slices [symmetric]) (simp add: n_def)
  then have head: "set (take (n * 11) s) \<subseteq> set ALPHABET"
    using blk by (simp only: set_concat set_map) fastforce
  have tail: "set (drop (n * 11) s) \<subseteq> set ALPHABET \<and> length s mod 11 \<notin> {1, 4, 8}"
  proof (cases "0 < length s mod 11")
    case False
    then have "n * 11 = length s"
      using div_mult_mod_eq [of "length s" 11] by (simp add: n_def)
    with False show ?thesis by simp
  next
    case True
    with assms loop obtain d t where d: "getDecodedBlockSize (length s mod 11) = Inr d"
      and t: "decodeBlock (drop (n * 11) s) d = Inr t"
      by (auto simp: cnBase58Decode_unfold n_def split: sum.splits)
    from t have "set (drop (n * 11) s) \<subseteq> set ALPHABET"
      using decodeBlock_Inl_iff [of "drop (n * 11) s" d] by auto
    with present_encoded_size [OF d] show ?thesis by simp
  qed
  have "set s = set (take (n * 11) s) \<union> set (drop (n * 11) s)"
    using set_append [of "take (n * 11) s" "drop (n * 11) s"] by simp
  with head tail show ?thesis by simp
qed

lemma decode_shape:
  assumes "cnBase58Decode s = Inr bs"
  shows "\<exists>r t. bs = r @ t \<and> length r = length s div 11 * 8 \<and>
           (\<forall>j<length s div 11.
              decodeBlock (slice_list s (j * 11) (j * 11 + 11)) 8 = Inr (slice_list r (j * 8) (j * 8 + 8))) \<and>
           (if 0 < length s mod 11
            then \<exists>d. getDecodedBlockSize (length s mod 11) = Inr d \<and>
                     decodeBlock (drop (length s div 11 * 11) s) d = Inr t
            else t = [])"
proof -
  define n where "n = length s div 11"
  from assms obtain r where loop: "cnBase58Decode_loop s 0 n [] = Inr r"
    by (auto simp: cnBase58Decode_unfold n_def split: sum.splits)
  let ?g = "\<lambda>j. projr (decodeBlock (slice_list s (j * 11) (j * 11 + 11)) 8)"
  from decode_full_blocks [OF loop]
  have r: "r = concat (map ?g [0..<n])"
    and blk: "\<And>j. j < n \<Longrightarrow> decodeBlock (slice_list s (j * 11) (j * 11 + 11)) 8 = Inr (?g j)"
    by simp_all
  have glen: "length (?g j) = 8" if "j < n" for j
    using decodeBlock_value [OF blk [OF that]] by simp
  have rlen: "length r = n * 8"
    unfolding r using glen by (rule length_concat_blocks)
  have pick: "slice_list r (j * 8) (j * 8 + 8) = ?g j" if "j < n" for j
    using slice_concat_blocks [of n ?g 8 j "[]"] glen that by (simp add: r)
  have blocks: "\<forall>j<n. decodeBlock (slice_list s (j * 11) (j * 11 + 11)) 8
                  = Inr (slice_list r (j * 8) (j * 8 + 8))"
    using blk pick by simp
  show ?thesis
  proof (cases "0 < length s mod 11")
    case False
    with assms loop have "bs = r @ []"
      by (simp add: cnBase58Decode_unfold n_def)
    with rlen blocks False show ?thesis
      unfolding n_def by (intro exI [of _ r] exI [of _ "[]"]) simp
  next
    case True
    with assms loop obtain d t where d: "getDecodedBlockSize (length s mod 11) = Inr d"
      and t: "decodeBlock (drop (n * 11) s) d = Inr t" and bs: "bs = r @ t"
      by (auto simp: cnBase58Decode_unfold n_def split: sum.splits)
    with rlen blocks True show ?thesis
      unfolding n_def by (intro exI [of _ r] exI [of _ t]) simp
  qed
qed

section \<open>The address decoder\<close>

lemma hex_digit_lowercase: "n < 16 \<Longrightarrow> hex_digit n \<in> set ''0123456789abcdef''"
  unfolding hex_digit_def by (rule nth_mem) simp

lemma length_bytesToHex: "length (bytesToHex b) = 2 * length b"
  by (induction b) (simp_all add: bytesToHex_def)

lemma set_bytesToHex: "set (bytesToHex b) \<subseteq> set ''0123456789abcdef''"
proof -
  have "hex_digit (unat w div 16) \<in> set ''0123456789abcdef''
      \<and> hex_digit (unat w mod 16) \<in> set ''0123456789abcdef''" for w :: byte
  proof -
    have "unat w < 256"
      using unsigned_less [of w] by simp
    then have "unat w div 16 < 16" and "unat w mod 16 < 16"
      by simp_all
    then show ?thesis
      by (simp only: hex_digit_lowercase)
  qed
  then show ?thesis
    unfolding bytesToHex_def by (simp only: set_concat set_map) auto
qed

lemma decodeStandardAddress_Inr:
  assumes "cnBase58Decode t = Inr d" and "length d = 69"
  shows "decodeStandardAddress t =
           Inr \<lparr> prefix = d ! 0,
                 publicSpendKeyHex = bytesToHex (take 32 (drop 1 d)),
                 publicViewKeyHex = bytesToHex (take 32 (drop 33 d)),
                 checksumHex = bytesToHex (take 4 (drop 65 d)) \<rparr>"
  using assms by (simp add: decodeStandardAddress_def slice_list_def)

lemma decodeStandardAddress_length:
  assumes "cnBase58Decode t = Inr d" and "length d \<noteq> 69"
  shows "decodeStandardAddress t = Inl (InvalidDecodedAddressLength (length d))"
  using assms by (simp add: decodeStandardAddress_def)

lemma decodeStandardAddress_Inl:
  assumes "cnBase58Decode t = Inl e"
  shows "decodeStandardAddress t = Inl e"
  using assms by (simp add: decodeStandardAddress_def)

lemma decode_error_not_length:
  "cnBase58Decode t \<noteq> Inl (InvalidDecodedAddressLength n)"
  using decode_error_kind [of t "InvalidDecodedAddressLength n"] by auto

section \<open>Round trips\<close>

text \<open>
  Claim C1. For every byte sequence \<open>b\<close>, encoding succeeds and decoding the encoded
  string succeeds and returns \<open>b\<close> itself, byte for byte.
\<close>

theorem decode_encode_roundtrip:
  "\<exists>s. cnBase58Encode b = Inr s \<and> cnBase58Decode s = Inr b"
  using encode_total [of b] decode_encode [of b] by blast

text \<open>
  Claim C2, as the code has it. \<^verbatim>\<open>decodeBlock\<close> keeps only the last
  \<open>decodedSize\<close> bytes of a group's value, so an accepted string is reproduced by
  re-encoding its decoded bytes exactly when no group of it overflows its block: for
  every string \<open>s\<close> that \<^verbatim>\<open>cnBase58Decode\<close> accepts with bytes \<open>bs\<close>,
  \<^verbatim>\<open>cnBase58Encode\<close> of \<open>bs\<close> is \<open>s\<close> if and only if the value of every group
  of \<open>s\<close> is below \<open>256 ^ decodedSize\<close>.
\<close>

theorem reencode_iff_no_overflow:
  "cnBase58Decode s = Inr bs \<Longrightarrow> cnBase58Encode bs = Inr s \<longleftrightarrow> no_overflow s"
  using encode_decode [of s bs] no_overflow_encode [of bs s] by blast

theorem reencode_iff_no_overflow_witness:
  "cnBase58Decode ''1c'' = Inr [35] \<and> no_overflow ''1c'' \<and> cnBase58Encode [35] = Inr ''1c'' \<and>
   cnBase58Decode ''zz'' = Inr [35] \<and> \<not> no_overflow ''zz''"
proof -
  have dec: "cnBase58Decode ''1c'' = Inr [35]"
    by code_simp
  have fit: "no_overflow ''1c''"
    by code_simp
  have dec': "cnBase58Decode ''zz'' = Inr [35]"
    by code_simp
  have "cnBase58Encode [35] \<noteq> Inr ''zz''"
    by code_simp
  with reencode_iff_no_overflow [OF dec'] have "\<not> no_overflow ''zz''"
    by simp
  with reencode_iff_no_overflow [OF dec] dec fit dec' show ?thesis
    by simp
qed

text \<open>
  The two-character group \<open>zz\<close> has the value 3363, which needs two bytes. It is
  accepted, its single decoded byte is the low byte 35, and 35 is encoded as \<open>1c\<close>.
\<close>

theorem reencode_overflow_counterexample:
  "cnBase58Decode ''zz'' = Inr [35] \<and> cnBase58Encode [35] = Inr ''1c'' \<and> ''1c'' \<noteq> ''zz''"
  by code_simp

section \<open>Encoding is total and has the table's widths\<close>

text \<open>
  Claim C3. \<^verbatim>\<open>cnBase58Encode\<close> returns a string for every byte sequence and never
  fails. When a trailing block exists its length is between 1 and 7, and the size table
  has an entry for it, so the invalid-decoded-block-size branch is not reached.
\<close>

theorem cnBase58Encode_total:
  "(\<exists>s. cnBase58Encode b = Inr s) \<and> (\<forall>e. cnBase58Encode b \<noteq> Inl e) \<and>
   (0 < length b mod FULL_BLOCK_SIZE \<longrightarrow>
      1 \<le> length b mod FULL_BLOCK_SIZE \<and> length b mod FULL_BLOCK_SIZE \<le> 7 \<and>
      (\<exists>w. getEncodedBlockSize (length b mod FULL_BLOCK_SIZE) = Inr w))"
proof -
  obtain s where s: "cnBase58Encode b = Inr s"
    using encode_total [of b] by blast
  have "\<exists>w. getEncodedBlockSize (length b mod 8) = Inr w" if "0 < length b mod 8"
    using encoded_size_table [OF that] by auto
  moreover have "length b mod 8 \<le> 7"
    using mod_less_divisor [of 8 "length b"] by simp
  ultimately show ?thesis
    using s by (auto simp: FULL_BLOCK_SIZE_def)
qed

theorem cnBase58Encode_total_witness:
  "0 < length [1, 2, 3 :: byte] mod FULL_BLOCK_SIZE \<and>
   getEncodedBlockSize (length [1, 2, 3 :: byte] mod FULL_BLOCK_SIZE) = Inr 5 \<and>
   (\<exists>s. cnBase58Encode [1, 2, 3] = Inr s)"
  using cnBase58Encode_total [of "[1, 2, 3]"]
  by (simp add: FULL_BLOCK_SIZE_def getEncodedBlockSize_def)

text \<open>
  Claim C4. An 8-byte block is encoded to exactly 11 characters, whatever its leading
  bytes; a trailing block of 1, 2, 3, 4, 5, 6, 7 bytes is encoded to exactly
  2, 3, 5, 6, 7, 9, 10 characters; and the encoding of a byte sequence \<open>b\<close> has
  11 characters for each full block plus the table width of the remainder, which is 0
  for remainder 0.
\<close>

theorem encoded_width_table:
  "(length blk = 8 \<longrightarrow> length (encodeBlock blk FULL_ENCODED_BLOCK_SIZE) = 11) \<and>
   (1 \<le> length blk \<and> length blk \<le> 7 \<longrightarrow>
      (\<exists>w. getEncodedBlockSize (length blk) = Inr w \<and>
           w = [2, 3, 5, 6, 7, 9, 10] ! (length blk - 1) \<and>
           length (encodeBlock blk w) = w)) \<and>
   (\<exists>s. cnBase58Encode b = Inr s \<and>
        length s = 11 * (length b div 8) + [0, 2, 3, 5, 6, 7, 9, 10] ! (length b mod 8))"
proof -
  have "getEncodedBlockSize (length blk) = Inr ([2, 3, 5, 6, 7, 9, 10] ! (length blk - 1))"
    if "1 \<le> length blk" and "length blk \<le> 7"
  proof -
    from that have "length blk \<in> {1, 2, 3, 4, 5, 6, 7}"
      by (simp only: insert_iff empty_iff) arith
    then show ?thesis
      by (auto simp: getEncodedBlockSize_def)
  qed
  moreover obtain s where "cnBase58Encode b = Inr s"
    using encode_total [of b] by blast
  ultimately show ?thesis
    using encode_length [of b s] by (simp add: length_encodeBlock FULL_ENCODED_BLOCK_SIZE_def)
qed

theorem encoded_width_table_witness:
  "length [0, 0, 0, 0, 0, 0, 0, 255 :: byte] = 8 \<and>
   length (encodeBlock [0, 0, 0, 0, 0, 0, 0, 255] FULL_ENCODED_BLOCK_SIZE) = 11 \<and>
   1 \<le> length [7, 7, 7 :: byte] \<and> length [7, 7, 7 :: byte] \<le> 7 \<and>
   length (encodeBlock [7, 7, 7] 5) = 5"
  using encoded_width_table [of "[0, 0, 0, 0, 0, 0, 0, 255]" "[]"]
    encoded_width_table [of "[7, 7, 7]" "[]"]
  by (simp add: getEncodedBlockSize_def)

section \<open>Decoding: failures and lengths\<close>

text \<open>
  Claim C5. \<^verbatim>\<open>cnBase58Decode\<close> fails if and only if the input has a character
  outside the alphabet or its length modulo 11 is 1, 4 or 8; on every other input it
  returns bytes. A failure is an invalid-character error naming a character of the input
  that is outside the alphabet, or an invalid-block-size error naming the length of the
  final group. The result is either an error or a byte sequence, so a failure carries no
  partial bytes.
\<close>

theorem cnBase58Decode_fails_iff:
  "((\<exists>e. cnBase58Decode s = Inl e) \<longleftrightarrow>
      (\<exists>c \<in> set s. c \<notin> set ALPHABET) \<or> length s mod FULL_ENCODED_BLOCK_SIZE \<in> {1, 4, 8}) \<and>
   ((\<exists>bs. cnBase58Decode s = Inr bs) \<longleftrightarrow>
      \<not> ((\<exists>c \<in> set s. c \<notin> set ALPHABET) \<or> length s mod FULL_ENCODED_BLOCK_SIZE \<in> {1, 4, 8})) \<and>
   (\<forall>e. cnBase58Decode s = Inl e \<longrightarrow>
      (\<exists>c \<in> set s. c \<notin> set ALPHABET \<and> e = InvalidBase58Character c) \<or>
      (length s mod FULL_ENCODED_BLOCK_SIZE \<in> {1, 4, 8} \<and>
       e = InvalidEncodedBlockSize (length s mod FULL_ENCODED_BLOCK_SIZE)))"
proof (cases "cnBase58Decode s")
  case (Inl e)
  from decode_error_kind [OF Inl] Inl show ?thesis
    by (auto simp: FULL_ENCODED_BLOCK_SIZE_def)
next
  case (Inr bs)
  from decode_ok_input [OF Inr] Inr show ?thesis
    by (auto simp: FULL_ENCODED_BLOCK_SIZE_def)
qed

theorem cnBase58Decode_fails_iff_witness:
  "cnBase58Decode ''1O'' = Inl (InvalidBase58Character CHR ''O'') \<and>
   cnBase58Decode ''1111'' = Inl (InvalidEncodedBlockSize 4) \<and>
   (\<exists>bs. cnBase58Decode ''1c'' = Inr bs)"
proof -
  have "CHR ''O'' \<in> set ''1O'' \<and> CHR ''O'' \<notin> set ALPHABET"
    by (simp add: ALPHABET_def)
  then have "\<exists>e. cnBase58Decode ''1O'' = Inl e"
    using cnBase58Decode_fails_iff [of "''1O''"] by blast
  moreover have "set ''1O'' = {CHR ''1'', CHR ''O''}" and "CHR ''1'' \<in> set ALPHABET"
    by (simp_all add: ALPHABET_def)
  ultimately have bad_char: "cnBase58Decode ''1O'' = Inl (InvalidBase58Character CHR ''O'')"
    using cnBase58Decode_fails_iff [of "''1O''"]
    by (auto simp: FULL_ENCODED_BLOCK_SIZE_def)
  have "set ''1111'' \<subseteq> set ALPHABET"
    by (simp add: ALPHABET_def)
  then have bad_size: "cnBase58Decode ''1111'' = Inl (InvalidEncodedBlockSize 4)"
    using cnBase58Decode_fails_iff [of "''1111''"]
    by (auto simp: FULL_ENCODED_BLOCK_SIZE_def)
  have "set ''1c'' \<subseteq> set ALPHABET"
    by (simp add: ALPHABET_def)
  then have ok: "\<exists>bs. cnBase58Decode ''1c'' = Inr bs"
    using cnBase58Decode_fails_iff [of "''1c''"]
    by (auto simp: FULL_ENCODED_BLOCK_SIZE_def)
  from bad_char bad_size ok show ?thesis
    by simp
qed

text \<open>
  Claim C6. When \<^verbatim>\<open>cnBase58Decode\<close> accepts a string, the number of bytes it
  returns depends on the length of the string only: 8 for each full group of 11
  characters plus the inverse-table size of the trailing group; an accepted string of 95
  characters gives 69 bytes. The bytes of each group are the minimal big-endian bytes of
  the group's value, left-padded with zero bytes or cut from the left to the block size.
\<close>

theorem decoded_length_by_input_length:
  assumes "cnBase58Decode s = Inr bs"
  shows "length bs = 8 * (length s div 11)
           + (case getDecodedBlockSize (length s mod 11) of Inl e \<Rightarrow> 0 | Inr d \<Rightarrow> d) \<and>
         (length s = 95 \<longrightarrow> length bs = 69) \<and>
         (\<forall>j<length s div 11. \<exists>v.
            decodeBlock_loop (slice_list s (j * 11) (j * 11 + 11)) 0 = Inr v \<and>
            length (slice_list bs (j * 8) (j * 8 + 8)) = 8 \<and>
            slice_list bs (j * 8) (j * 8 + 8)
              = replicate (8 - length (bigIntToBytesMinimal v)) 0
                @ drop (length (bigIntToBytesMinimal v) - 8) (bigIntToBytesMinimal v)) \<and>
         (0 < length s mod 11 \<longrightarrow> (\<exists>d v.
            getDecodedBlockSize (length s mod 11) = Inr d \<and>
            decodeBlock_loop (drop (length s div 11 * 11) s) 0 = Inr v \<and>
            length (drop (8 * (length s div 11)) bs) = d \<and>
            drop (8 * (length s div 11)) bs
              = replicate (d - length (bigIntToBytesMinimal v)) 0
                @ drop (length (bigIntToBytesMinimal v) - d) (bigIntToBytesMinimal v)))"
proof -
  define n where "n = length s div 11"
  from decode_shape [OF assms] obtain r t where bs: "bs = r @ t" and rlen: "length r = n * 8"
    and blocks: "\<And>j. j < n \<Longrightarrow>
        decodeBlock (slice_list s (j * 11) (j * 11 + 11)) 8 = Inr (slice_list r (j * 8) (j * 8 + 8))"
    and tail: "if 0 < length s mod 11
        then \<exists>d. getDecodedBlockSize (length s mod 11) = Inr d \<and>
                 decodeBlock (drop (n * 11) s) d = Inr t
        else t = []"
    unfolding n_def by blast
  have in_r: "slice_list bs (j * 8) (j * 8 + 8) = slice_list r (j * 8) (j * 8 + 8)" if "j < n" for j
  proof -
    from that have "Suc j * 8 \<le> n * 8"
      by (intro mult_le_mono1) simp
    then show ?thesis
      using rlen by (simp add: bs slice_list_def)
  qed
  have full: "\<exists>v. decodeBlock_loop (slice_list s (j * 11) (j * 11 + 11)) 0 = Inr v \<and>
      length (slice_list bs (j * 8) (j * 8 + 8)) = 8 \<and>
      slice_list bs (j * 8) (j * 8 + 8)
        = replicate (8 - length (bigIntToBytesMinimal v)) 0
          @ drop (length (bigIntToBytesMinimal v) - 8) (bigIntToBytesMinimal v)" if "j < n" for j
  proof -
    have "length (slice_list bs (j * 8) (j * 8 + 8)) = 8"
      using decodeBlock_value [OF blocks [OF that]] in_r [OF that] by simp
    then show ?thesis
      using decodeBlock_cases [of "slice_list s (j * 11) (j * 11 + 11)" 8]
        blocks [OF that] in_r [OF that]
      by auto
  qed
  have last: "drop (8 * n) bs = t"
    using rlen by (simp add: bs mult.commute)
  have len_and_tail: "length bs = 8 * n
        + (case getDecodedBlockSize (length s mod 11) of Inl e \<Rightarrow> 0 | Inr d \<Rightarrow> d) \<and>
      (0 < length s mod 11 \<longrightarrow> (\<exists>d v.
         getDecodedBlockSize (length s mod 11) = Inr d \<and>
         decodeBlock_loop (drop (n * 11) s) 0 = Inr v \<and>
         length t = d \<and>
         t = replicate (d - length (bigIntToBytesMinimal v)) 0
               @ drop (length (bigIntToBytesMinimal v) - d) (bigIntToBytesMinimal v)))"
  proof (cases "0 < length s mod 11")
    case False
    with tail have "t = []" by simp
    with False rlen show ?thesis
      by (simp add: bs getDecodedBlockSize_def)
  next
    case True
    with tail obtain d where d: "getDecodedBlockSize (length s mod 11) = Inr d"
      and t: "decodeBlock (drop (n * 11) s) d = Inr t"
      by auto
    have "length t = d"
      using decodeBlock_value [OF t] by simp
    moreover have "\<exists>v. decodeBlock_loop (drop (n * 11) s) 0 = Inr v \<and>
        t = replicate (d - length (bigIntToBytesMinimal v)) 0
              @ drop (length (bigIntToBytesMinimal v) - d) (bigIntToBytesMinimal v)"
      using decodeBlock_cases [of "drop (n * 11) s" d] t by auto
    ultimately show ?thesis
      using rlen d by (auto simp: bs)
  qed
  have "length bs = 69" if "length s = 95"
  proof -
    from that have "n = 8" and "length s mod 11 = 7"
      by (simp_all add: n_def)
    with len_and_tail show ?thesis
      by (simp add: getDecodedBlockSize_def)
  qed
  with full len_and_tail last show ?thesis
    unfolding n_def by simp
qed

theorem decoded_length_by_input_length_witness:
  "cnBase58Decode
     ''4AdUndXHHZ6cfufTMvppY6JwXNouMBzSkbLYfpAV5Usx3skxNgYeYTRj5UzqtReoS44qo9mtmXCqY45DJ852K5Jv2684Rge''
   = Inr [18, 237, 169, 254, 141, 252, 221, 37, 213, 67, 14, 166, 66, 41, 208,
      79, 107, 65, 178, 229, 161, 88, 124, 41, 205, 73, 154, 99, 235, 121,
      209, 23, 17, 48, 118, 160, 43, 115, 209, 48, 251, 144, 76, 158, 145,
      7, 95, 205, 22, 247, 53, 198, 133, 13, 250, 219, 18, 94, 184, 38, 217,
      106, 17, 63, 9, 165, 113, 32, 163] \<and>
   length [18, 237, 169, 254, 141, 252, 221, 37, 213, 67, 14, 166, 66, 41, 208,
      79, 107, 65, 178, 229, 161, 88, 124, 41, 205, 73, 154, 99, 235, 121,
      209, 23, 17, 48, 118, 160, 43, 115, 209, 48, 251, 144, 76, 158, 145,
      7, 95, 205, 22, 247, 53, 198, 133, 13, 250, 219, 18, 94, 184, 38, 217,
      106, 17, 63, 9, 165, 113, 32, 163 :: byte] = 69"
proof -
  have dec: "cnBase58Decode
     ''4AdUndXHHZ6cfufTMvppY6JwXNouMBzSkbLYfpAV5Usx3skxNgYeYTRj5UzqtReoS44qo9mtmXCqY45DJ852K5Jv2684Rge''
   = Inr [18, 237, 169, 254, 141, 252, 221, 37, 213, 67, 14, 166, 66, 41, 208,
      79, 107, 65, 178, 229, 161, 88, 124, 41, 205, 73, 154, 99, 235, 121,
      209, 23, 17, 48, 118, 160, 43, 115, 209, 48, 251, 144, 76, 158, 145,
      7, 95, 205, 22, 247, 53, 198, 133, 13, 250, 219, 18, 94, 184, 38, 217,
      106, 17, 63, 9, 165, 113, 32, 163]"
    by code_simp
  from decoded_length_by_input_length [OF dec] dec show ?thesis
    by simp
qed

section \<open>Claims about the address decoder\<close>

text \<open>
  Claim C7. When \<^verbatim>\<open>decodeStandardAddress\<close> succeeds on a text whose decoded bytes
  are \<open>d\<close>, then \<open>d\<close> has 69 bytes, the prefix is \<open>d[0]\<close>, the spend key is the
  lowercase hexadecimal rendering of \<open>d[1..33)\<close> with 64 characters, the view key that
  of \<open>d[33..65)\<close> with 64 characters, and the checksum that of \<open>d[65..69)\<close>.
\<close>

theorem decodeStandardAddress_fields:
  assumes "decodeStandardAddress t = Inr r" and "cnBase58Decode t = Inr d"
  shows "length d = 69 \<and> prefix r = d ! 0 \<and>
         publicSpendKeyHex r = bytesToHex (take 32 (drop 1 d)) \<and>
         length (publicSpendKeyHex r) = 64 \<and>
         publicViewKeyHex r = bytesToHex (take 32 (drop 33 d)) \<and>
         length (publicViewKeyHex r) = 64 \<and>
         checksumHex r = bytesToHex (take 4 (drop 65 d)) \<and>
         length (checksumHex r) = 8 \<and>
         set (publicSpendKeyHex r @ publicViewKeyHex r @ checksumHex r)
           \<subseteq> set ''0123456789abcdef''"
proof -
  have len: "length d = 69"
    using assms decodeStandardAddress_length [of t d] by auto
  from decodeStandardAddress_Inr [OF assms(2) len] assms(1)
  have r: "r = \<lparr> prefix = d ! 0,
                 publicSpendKeyHex = bytesToHex (take 32 (drop 1 d)),
                 publicViewKeyHex = bytesToHex (take 32 (drop 33 d)),
                 checksumHex = bytesToHex (take 4 (drop 65 d)) \<rparr>"
    by simp
  have "set (bytesToHex (take 32 (drop 1 d)) @ bytesToHex (take 32 (drop 33 d))
          @ bytesToHex (take 4 (drop 65 d))) \<subseteq> set ''0123456789abcdef''"
    using set_bytesToHex [of "take 32 (drop 1 d)"] set_bytesToHex [of "take 32 (drop 33 d)"]
      set_bytesToHex [of "take 4 (drop 65 d)"]
    by (simp only: set_append Un_subset_iff)
  then show ?thesis
    using len by (simp only: r length_bytesToHex DecodedMoneroAddress.simps) simp
qed

theorem decodeStandardAddress_fields_witness:
  "cnBase58Decode
     ''4AdUndXHHZ6cfufTMvppY6JwXNouMBzSkbLYfpAV5Usx3skxNgYeYTRj5UzqtReoS44qo9mtmXCqY45DJ852K5Jv2684Rge''
   = Inr [18, 237, 169, 254, 141, 252, 221, 37, 213, 67, 14, 166, 66, 41, 208,
      79, 107, 65, 178, 229, 161, 88, 124, 41, 205, 73, 154, 99, 235, 121,
      209, 23, 17, 48, 118, 160, 43, 115, 209, 48, 251, 144, 76, 158, 145,
      7, 95, 205, 22, 247, 53, 198, 133, 13, 250, 219, 18, 94, 184, 38, 217,
      106, 17, 63, 9, 165, 113, 32, 163] \<and>
   decodeStandardAddress
     ''4AdUndXHHZ6cfufTMvppY6JwXNouMBzSkbLYfpAV5Usx3skxNgYeYTRj5UzqtReoS44qo9mtmXCqY45DJ852K5Jv2684Rge''
   = Inr \<lparr> prefix = 18,
           publicSpendKeyHex = ''eda9fe8dfcdd25d5430ea64229d04f6b41b2e5a1587c29cd499a63eb79d11711'',
           publicViewKeyHex = ''3076a02b73d130fb904c9e91075fcd16f735c6850dfadb125eb826d96a113f09'',
           checksumHex = ''a57120a3'' \<rparr> \<and>
   length (publicSpendKeyHex \<lparr> prefix = 18,
           publicSpendKeyHex = ''eda9fe8dfcdd25d5430ea64229d04f6b41b2e5a1587c29cd499a63eb79d11711'',
           publicViewKeyHex = ''3076a02b73d130fb904c9e91075fcd16f735c6850dfadb125eb826d96a113f09'',
           checksumHex = ''a57120a3'' \<rparr>) = 64 \<and>
   length (publicViewKeyHex \<lparr> prefix = 18,
           publicSpendKeyHex = ''eda9fe8dfcdd25d5430ea64229d04f6b41b2e5a1587c29cd499a63eb79d11711'',
           publicViewKeyHex = ''3076a02b73d130fb904c9e91075fcd16f735c6850dfadb125eb826d96a113f09'',
           checksumHex = ''a57120a3'' \<rparr>) = 64"
proof -
  have dec: "cnBase58Decode
     ''4AdUndXHHZ6cfufTMvppY6JwXNouMBzSkbLYfpAV5Usx3skxNgYeYTRj5UzqtReoS44qo9mtmXCqY45DJ852K5Jv2684Rge''
   = Inr [18, 237, 169, 254, 141, 252, 221, 37, 213, 67, 14, 166, 66, 41, 208,
      79, 107, 65, 178, 229, 161, 88, 124, 41, 205, 73, 154, 99, 235, 121,
      209, 23, 17, 48, 118, 160, 43, 115, 209, 48, 251, 144, 76, 158, 145,
      7, 95, 205, 22, 247, 53, 198, 133, 13, 250, 219, 18, 94, 184, 38, 217,
      106, 17, 63, 9, 165, 113, 32, 163]"
    by code_simp
  have addr: "decodeStandardAddress
     ''4AdUndXHHZ6cfufTMvppY6JwXNouMBzSkbLYfpAV5Usx3skxNgYeYTRj5UzqtReoS44qo9mtmXCqY45DJ852K5Jv2684Rge''
   = Inr \<lparr> prefix = 18,
           publicSpendKeyHex = ''eda9fe8dfcdd25d5430ea64229d04f6b41b2e5a1587c29cd499a63eb79d11711'',
           publicViewKeyHex = ''3076a02b73d130fb904c9e91075fcd16f735c6850dfadb125eb826d96a113f09'',
           checksumHex = ''a57120a3'' \<rparr>"
    by code_simp
  note fields = decodeStandardAddress_fields [OF addr dec]
  from fields have spend: "length (publicSpendKeyHex \<lparr> prefix = 18,
           publicSpendKeyHex = ''eda9fe8dfcdd25d5430ea64229d04f6b41b2e5a1587c29cd499a63eb79d11711'',
           publicViewKeyHex = ''3076a02b73d130fb904c9e91075fcd16f735c6850dfadb125eb826d96a113f09'',
           checksumHex = ''a57120a3'' \<rparr>) = 64"
    by (elim conjE)
  from fields have view: "length (publicViewKeyHex \<lparr> prefix = 18,
           publicSpendKeyHex = ''eda9fe8dfcdd25d5430ea64229d04f6b41b2e5a1587c29cd499a63eb79d11711'',
           publicViewKeyHex = ''3076a02b73d130fb904c9e91075fcd16f735c6850dfadb125eb826d96a113f09'',
           checksumHex = ''a57120a3'' \<rparr>) = 64"
    by (elim conjE)
  show ?thesis
    by (rule conjI [OF dec conjI [OF addr conjI [OF spend view]]])
qed

text \<open>
  Claim C8. \<^verbatim>\<open>decodeStandardAddress\<close> fails with the invalid-length error if and
  only if the codec decodes its input to a byte sequence whose length is not 69, and the
  error names that length. A failure of the codec is passed on unchanged, and it is never
  an invalid-length error.
\<close>

theorem decodeStandardAddress_errors:
  "((\<exists>n. decodeStandardAddress t = Inl (InvalidDecodedAddressLength n)) \<longleftrightarrow>
      (\<exists>d. cnBase58Decode t = Inr d \<and> length d \<noteq> 69)) \<and>
   (\<forall>n. decodeStandardAddress t = Inl (InvalidDecodedAddressLength n) \<longrightarrow>
      (\<exists>d. cnBase58Decode t = Inr d \<and> length d = n)) \<and>
   (\<forall>e. cnBase58Decode t = Inl e \<longrightarrow>
      decodeStandardAddress t = Inl e \<and> (\<forall>n. e \<noteq> InvalidDecodedAddressLength n))"
proof (cases "cnBase58Decode t")
  case (Inl e)
  then have "decodeStandardAddress t = Inl e"
    by (rule decodeStandardAddress_Inl)
  moreover have "e \<noteq> InvalidDecodedAddressLength n" for n
    using decode_error_not_length [of t n] Inl by auto
  ultimately show ?thesis
    using Inl by auto
next
  case (Inr d)
  show ?thesis
  proof (cases "length d = 69")
    case True
    from decodeStandardAddress_Inr [OF Inr True] Inr True show ?thesis
      by simp
  next
    case False
    from decodeStandardAddress_length [OF Inr False] Inr False show ?thesis
      by simp
  qed
qed

theorem decodeStandardAddress_errors_witness:
  "cnBase58Decode ''11'' = Inr [0] \<and>
   decodeStandardAddress ''11'' = Inl (InvalidDecodedAddressLength 1) \<and>
   cnBase58Decode ''1O'' = Inl (InvalidBase58Character CHR ''O'') \<and>
   decodeStandardAddress ''1O'' = Inl (InvalidBase58Character CHR ''O'')"
proof -
  have short: "cnBase58Decode ''11'' = Inr [0]"
    by code_simp
  then have "\<exists>d. cnBase58Decode ''11'' = Inr d \<and> length d \<noteq> 69"
    by simp
  then obtain n where n: "decodeStandardAddress ''11'' = Inl (InvalidDecodedAddressLength n)"
    using decodeStandardAddress_errors [of "''11''"] by blast
  then have "n = 1"
    using decodeStandardAddress_errors [of "''11''"] short by auto
  moreover have bad: "cnBase58Decode ''1O'' = Inl (InvalidBase58Character CHR ''O'')"
    by code_simp
  then have "decodeStandardAddress ''1O'' = Inl (InvalidBase58Character CHR ''O'')"
    using decodeStandardAddress_errors [of "''1O''"] by blast
  ultimately show ?thesis
    using short n bad by simp
qed

text \<open>
  Claim C9. No checksum and no prefix is checked: for every sequence \<open>b\<close> of 69 bytes,
  whatever its first byte and its last four bytes, \<^verbatim>\<open>decodeStandardAddress\<close> succeeds
  on the encoding of \<open>b\<close> and returns the fields of \<open>b\<close> as they are.
\<close>

theorem decodeStandardAddress_no_validation:
  assumes "length b = 69"
  shows "\<exists>s r. cnBase58Encode b = Inr s \<and> decodeStandardAddress s = Inr r \<and>
           prefix r = b ! 0 \<and>
           publicSpendKeyHex r = bytesToHex (take 32 (drop 1 b)) \<and>
           publicViewKeyHex r = bytesToHex (take 32 (drop 33 b)) \<and>
           checksumHex r = bytesToHex (drop 65 b)"
proof -
  obtain s where s: "cnBase58Encode b = Inr s"
    using encode_total [of b] by blast
  then have "cnBase58Decode s = Inr b"
    by (rule decode_encode)
  from decodeStandardAddress_Inr [OF this assms] s assms show ?thesis
    by simp
qed

theorem decodeStandardAddress_no_validation_witness:
  "length (255 # replicate 64 0 @ [222, 173, 190, 239 :: byte]) = 69 \<and>
   (\<exists>s r. cnBase58Encode (255 # replicate 64 0 @ [222, 173, 190, 239]) = Inr s \<and>
      decodeStandardAddress s = Inr r \<and> prefix r = 255 \<and> checksumHex r = ''deadbeef'')"
proof -
  have len: "length (255 # replicate 64 0 @ [222, 173, 190, 239 :: byte]) = 69"
    by simp
  have "bytesToHex [222, 173, 190, 239] = ''deadbeef''"
    by code_simp
  with decodeStandardAddress_no_validation [OF len] len show ?thesis
    by auto
qed

section \<open>Empty input\<close>

text \<open>
  Claim C10. Both directions of the codec accept the empty input and return the empty
  output: encoding no bytes gives the empty string, and decoding the empty string
  succeeds with no bytes.
\<close>

theorem empty_input_roundtrip:
  "cnBase58Encode [] = Inr [] \<and> cnBase58Decode [] = Inr []"
  by (simp add: cnBase58Encode_def cnBase58Decode_def
      cnBase58Encode_loop.simps cnBase58Decode_loop.simps)

end
